theory Spec2Isabelle
  imports Complex_Main "HOL-Library.Sublist" "HOL-Library.Multiset"
begin

section \<open>The cargo service: 0/1 knapsack by dynamic programming\<close>

text \<open>
  A shallow embedding of the class \<open>CargoService\<close> (cargo.service.ts): \<open>validateProblem\<close>,
  \<open>solve\<close>, \<open>optimizeMultipleScenarios\<close>, \<open>solveWithItemLimit\<close> and \<open>calculateEfficiency\<close>.

  Numbers. The source computes with JavaScript numbers. They are modelled as exact
  rationals (\<open>rat\<close>): \<open>Math.floor\<close> is \<open>floor\<close>, \<open>Math.max\<close> is \<open>max\<close>, \<open>Math.round x\<close> is
  \<open>floor (x + 1/2)\<close>. Rounding, NaN and the infinities are outside the model: it
  describes the program where the program's sums are exact. In particular \<open>capacity + 1\<close>
  is the exact sum, so a capacity that double arithmetic cannot tell from an integer after
  adding \<open>1\<close> (such as \<open>1 + 2^-52\<close>) is outside the model.

  Exceptions. Every \<open>throw\<close> of the source is a value of the type \<open>error\<close>; the functions
  return \<open>error + result\<close>, with \<open>Inl\<close> for the exception. The constructor call
  \<open>Array(len)\<close> throws a RangeError unless \<open>len\<close> is an integer between \<open>0\<close> and
  \<open>2^32 - 1\<close>; this is the constructor \<open>RangeError\<close> below.

  Resources. The length check of \<open>Array\<close> is the only limit of the model. A runtime has
  limits of its own, which the source does not fix: it refuses to fill an array beyond some
  length (with the same RangeError) and it runs out of memory. So \<open>Inr s\<close> reads: if the
  runtime builds the tables, the call returns \<open>s\<close>. The statements below about returned
  solutions are stated for a call that has returned, and the statements about a thrown
  RangeError are evaluated at small inputs, where the exact sum and the length check are
  what the program computes.

  Calls. Every function of the model is a function of its arguments. This mirrors the
  source, whose methods read no field, clock or random source and write nothing but
  their own local arrays; it is a fact of the embedding and not a theorem about it.
\<close>

subsection \<open>Data\<close>

text \<open>The field \<open>id\<close> of the source is called \<open>id'\<close> (\<open>id\<close> is the identity function of HOL) and the
  field \<open>method\<close> is called \<open>method'\<close> (a keyword of Isabelle).\<close>

record CargoItem =
  id' :: string
  name :: string
  weight :: rat
  profit :: rat

record KnapsackProblem =
  capacity :: rat
  items :: "CargoItem list"

text \<open>\<open>SelectedItemDetail\<close> has the four fields of an item.\<close>

type_synonym SelectedItemDetail = CargoItem

text \<open>
  The method label is a string of the source; here it is a value that carries what the
  string is built from: \<open>Dp01\<close> is the label of \<open>solve\<close>, \<open>Dp01Max m\<close> the label of
  \<open>solveWithItemLimit\<close> with the limit \<open>m\<close> interpolated.
\<close>

datatype methodLabel = Dp01 | Dp01Max rat

record KnapsackSolution =
  selectedItemIds :: "string list"
  selectedItems :: "SelectedItemDetail list"
  totalProfit :: rat
  totalWeight :: rat
  remainingCapacity :: rat
  utilizationPercentage :: rat
  method' :: methodLabel

record ItemWithEfficiency = CargoItem +
  efficiency :: rat

text \<open>
  The exceptions. The five \<open>BadRequestException\<close>s of \<open>validateProblem\<close> (two of them carry
  the index of the offending item in their message), the one of \<open>solveWithItemLimit\<close>, and
  the RangeError of an invalid array length.
\<close>

datatype error =
    InvalidCapacity
  | EmptyItemSet
  | InvalidWeight nat
  | NegativeProfit nat
  | DuplicateItemId
  | InvalidItemLimit
  | RangeError

subsection \<open>validateProblem\<close>

text \<open>
  \<open>items.forEach\<close> visits the items in order and throws at the first item whose weight is
  not positive or, failing that, whose profit is negative.
\<close>

fun checkItems :: "nat \<Rightarrow> CargoItem list \<Rightarrow> error option" where
  "checkItems index [] = None"
| "checkItems index (item # rest) =
     (if weight item \<le> 0 then Some (InvalidWeight index)
      else if profit item < 0 then Some (NegativeProfit index)
      else checkItems (Suc index) rest)"

text \<open>\<open>None\<close>: the function returns; \<open>Some e\<close>: it throws \<open>e\<close>.\<close>

definition validateProblem :: "KnapsackProblem \<Rightarrow> error option" where
  "validateProblem problem =
     (if capacity problem \<le> 0 then Some InvalidCapacity
      else if length (items problem) = 0 then Some EmptyItemSet
      else case checkItems 0 (items problem) of
             Some e \<Rightarrow> Some e
           | None \<Rightarrow>
               (let ids = map id' (items problem) in
                if length ids \<noteq> card (set ids) then Some DuplicateItemId else None))"

subsection \<open>Arrays\<close>

text \<open>
  \<open>Array(len)\<close>, the length check of the language: the length as a natural number, or
  \<open>None\<close> for the RangeError. The argument is the exact value of \<open>len\<close>, and no limit of
  a runtime is part of it.
\<close>

definition arrayLength :: "rat \<Rightarrow> nat option" where
  "arrayLength len =
     (if of_int \<lfloor>len\<rfloor> = len \<and> 0 \<le> len \<and> len \<le> 4294967295 then Some (nat \<lfloor>len\<rfloor>) else None)"

type_synonym table = "rat list list"

subsection \<open>solve\<close>

text \<open>The body of the inner loop: the assignment to \<open>dp[i][w]\<close>.\<close>

definition fillCell :: "CargoItem \<Rightarrow> nat \<Rightarrow> nat \<Rightarrow> table \<Rightarrow> table" where
  "fillCell currentItem i w dp =
     (let wt = \<lfloor>weight currentItem\<rfloor>; pr = profit currentItem in
      if wt \<le> int w
      then dp[i := (dp ! i)[w := max (dp ! (i - 1) ! w) (dp ! (i - 1) ! nat (int w - wt) + pr)]]
      else dp[i := (dp ! i)[w := dp ! (i - 1) ! w]])"

text \<open>The inner loop, \<open>w\<close> from \<open>0\<close> to \<open>capacity\<close>, for the item \<open>items[i - 1]\<close>.\<close>

definition fillRow :: "CargoItem list \<Rightarrow> nat \<Rightarrow> nat \<Rightarrow> table \<Rightarrow> table" where
  "fillRow its cap i dp = fold (fillCell (its ! (i - 1)) i) [0..<cap + 1] dp"

text \<open>The table of zeros and the outer loop, \<open>i\<close> from \<open>1\<close> to \<open>n\<close>.\<close>

definition fillTable :: "CargoItem list \<Rightarrow> nat \<Rightarrow> nat \<Rightarrow> table" where
  "fillTable its n cap =
     fold (fillRow its cap) [1..<n + 1] (replicate (n + 1) (replicate (cap + 1) 0))"

definition detail :: "CargoItem \<Rightarrow> SelectedItemDetail" where
  "detail item = \<lparr>id' = id' item, name = name item, weight = weight item, profit = profit item\<rparr>"

text \<open>
  The backtracking loop \<open>for (let i = n; i > 0 && w > 0; i--)\<close>. The state is
  \<open>(selectedItemIds, selectedItems, w, totalWeight)\<close>.
\<close>

type_synonym backtrackState = "string list \<times> SelectedItemDetail list \<times> int \<times> rat"

fun backtrack :: "CargoItem list \<Rightarrow> table \<Rightarrow> nat \<Rightarrow> backtrackState \<Rightarrow> backtrackState" where
  "backtrack its dp 0 st = st"
| "backtrack its dp (Suc j) (ids, sel, w, tw) =
     (if w > 0 then
        (if dp ! Suc j ! nat w \<noteq> dp ! j ! nat w
         then let item = its ! j in
              backtrack its dp j
                (ids @ [id' item], sel @ [detail item], w - \<lfloor>weight item\<rfloor>, tw + weight item)
         else backtrack its dp j (ids, sel, w, tw))
      else (ids, sel, w, tw))"

definition roundTo2 :: "rat \<Rightarrow> rat" where
  "roundTo2 x = of_int \<lfloor>x * 100 + 1 / 2\<rfloor> / 100"

definition solve :: "KnapsackProblem \<Rightarrow> error + KnapsackSolution" where
  "solve problem =
     (case validateProblem problem of
        Some e \<Rightarrow> Inl e
      | None \<Rightarrow>
          (let n = length (items problem) in
           case (arrayLength (of_nat n + 1), arrayLength (capacity problem + 1)) of
             (Some rows, Some cols) \<Rightarrow>
               (let cap = cols - 1;
                    dp = fillTable (items problem) n cap;
                    (ids, sel, w, tw) = backtrack (items problem) dp n ([], [], int cap, 0)
                in Inr \<lparr>selectedItemIds = ids,
                        selectedItems = sel,
                        totalProfit = dp ! n ! cap,
                        totalWeight = tw,
                        remainingCapacity = capacity problem - tw,
                        utilizationPercentage = roundTo2 (tw / capacity problem * 100),
                        method' = Dp01\<rparr>)
           | _ \<Rightarrow> Inl RangeError))"

subsection \<open>optimizeMultipleScenarios\<close>

text \<open>\<open>problems.map\<close> calls \<open>solve\<close> on each problem in order; the first exception ends it.\<close>

fun optimizeMultipleScenarios :: "KnapsackProblem list \<Rightarrow> error + KnapsackSolution list" where
  "optimizeMultipleScenarios [] = Inr []"
| "optimizeMultipleScenarios (problem # rest) =
     (case solve problem of
        Inl e \<Rightarrow> Inl e
      | Inr s \<Rightarrow>
          (case optimizeMultipleScenarios rest of
             Inl e \<Rightarrow> Inl e
           | Inr ss \<Rightarrow> Inr (s # ss)))"

subsection \<open>solveWithItemLimit\<close>

type_synonym table3 = "rat list list list"

text \<open>The assignment to \<open>dp[i][w][k]\<close>.\<close>

definition fillCell3 :: "CargoItem \<Rightarrow> nat \<Rightarrow> nat \<Rightarrow> nat \<Rightarrow> table3 \<Rightarrow> table3" where
  "fillCell3 currentItem i w k dp =
     (let wt = \<lfloor>weight currentItem\<rfloor>; pr = profit currentItem in
      if wt \<le> int w \<and> k > 0
      then dp[i := (dp ! i)[w := (dp ! i ! w)[k :=
             max (dp ! (i - 1) ! w ! k) (dp ! (i - 1) ! nat (int w - wt) ! (k - 1) + pr)]]]
      else dp[i := (dp ! i)[w := (dp ! i ! w)[k := dp ! (i - 1) ! w ! k]]])"

definition fillCol3 :: "CargoItem \<Rightarrow> nat \<Rightarrow> nat \<Rightarrow> nat \<Rightarrow> table3 \<Rightarrow> table3" where
  "fillCol3 currentItem i maxK w dp = fold (fillCell3 currentItem i w) [0..<maxK + 1] dp"

definition fillRow3 :: "CargoItem list \<Rightarrow> nat \<Rightarrow> nat \<Rightarrow> nat \<Rightarrow> table3 \<Rightarrow> table3" where
  "fillRow3 its cap maxK i dp = fold (fillCol3 (its ! (i - 1)) i maxK) [0..<cap + 1] dp"

definition fillTable3 :: "CargoItem list \<Rightarrow> nat \<Rightarrow> nat \<Rightarrow> nat \<Rightarrow> table3" where
  "fillTable3 its n cap maxK =
     fold (fillRow3 its cap maxK) [1..<n + 1]
       (replicate (n + 1) (replicate (cap + 1) (replicate (maxK + 1) 0)))"

text \<open>
  The loop \<open>for (let i = n; i > 0 && w > 0 && k > 0; i--)\<close>. The state is
  \<open>(selectedItemIds, selectedItems, w, k, totalWeight)\<close>.
\<close>

type_synonym backtrackState3 = "string list \<times> SelectedItemDetail list \<times> int \<times> int \<times> rat"

fun backtrack3 :: "CargoItem list \<Rightarrow> table3 \<Rightarrow> nat \<Rightarrow> backtrackState3 \<Rightarrow> backtrackState3" where
  "backtrack3 its dp 0 st = st"
| "backtrack3 its dp (Suc j) (ids, sel, w, k, tw) =
     (if w > 0 \<and> k > 0 then
        (if dp ! Suc j ! nat w ! nat k \<noteq> dp ! j ! nat w ! nat k
         then let item = its ! j in
              backtrack3 its dp j
                (ids @ [id' item], sel @ [detail item], w - \<lfloor>weight item\<rfloor>, k - 1, tw + weight item)
         else backtrack3 its dp j (ids, sel, w, k, tw))
      else (ids, sel, w, k, tw))"

definition solveWithItemLimit :: "KnapsackProblem \<Rightarrow> rat \<Rightarrow> error + KnapsackSolution" where
  "solveWithItemLimit problem maxItems =
     (case validateProblem problem of
        Some e \<Rightarrow> Inl e
      | None \<Rightarrow>
          if maxItems \<le> 0 then Inl InvalidItemLimit
          else
           (let nr = min (of_nat (length (items problem))) maxItems in
            case (arrayLength (nr + 1), arrayLength (capacity problem + 1), arrayLength (maxItems + 1)) of
              (Some rows, Some cols, Some deps) \<Rightarrow>
                (let n = rows - 1; cap = cols - 1; maxK = deps - 1;
                     dp = fillTable3 (items problem) n cap maxK;
                     (ids, sel, w, k, tw) =
                        backtrack3 (items problem) dp n ([], [], int cap, int maxK, 0)
                 in Inr \<lparr>selectedItemIds = ids,
                         selectedItems = sel,
                         totalProfit = dp ! n ! cap ! maxK,
                         totalWeight = tw,
                         remainingCapacity = capacity problem - tw,
                         utilizationPercentage = roundTo2 (tw / capacity problem * 100),
                         method' = Dp01Max maxItems\<rparr>)
            | _ \<Rightarrow> Inl RangeError))"

subsection \<open>calculateEfficiency\<close>

text \<open>
  \<open>Array.prototype.sort\<close> with a comparator is a stable sort: \<open>a\<close> stays before \<open>b\<close> unless
  the comparator is positive on \<open>(a, b)\<close>. It is modelled as a stable insertion sort.
\<close>

definition withEfficiency :: "CargoItem \<Rightarrow> ItemWithEfficiency" where
  "withEfficiency item =
     \<lparr>id' = id' item, name = name item, weight = weight item, profit = profit item,
      efficiency = profit item / weight item\<rparr>"

fun insertBy :: "('a \<Rightarrow> 'a \<Rightarrow> rat) \<Rightarrow> 'a \<Rightarrow> 'a list \<Rightarrow> 'a list" where
  "insertBy cmp x [] = [x]"
| "insertBy cmp x (y # ys) = (if cmp x y \<le> 0 then x # y # ys else y # insertBy cmp x ys)"

definition sortBy :: "('a \<Rightarrow> 'a \<Rightarrow> rat) \<Rightarrow> 'a list \<Rightarrow> 'a list" where
  "sortBy cmp xs = foldr (insertBy cmp) xs []"

definition calculateEfficiency :: "KnapsackProblem \<Rightarrow> ItemWithEfficiency list" where
  "calculateEfficiency problem =
     sortBy (\<lambda>a b. efficiency b - efficiency a) (map withEfficiency (items problem))"

section \<open>Specification-level definitions\<close>

subsection \<open>The preconditions\<close>

text \<open>
  The preconditions of the specification: capacity positive, at least one item, every weight
  positive and every profit non-negative, identifiers pairwise distinct.
\<close>

definition preconditions :: "KnapsackProblem \<Rightarrow> bool" where
  "preconditions problem \<longleftrightarrow>
     0 < capacity problem \<and> items problem \<noteq> [] \<and>
     (\<forall>it \<in> set (items problem). 0 < weight it \<and> 0 \<le> profit it) \<and>
     distinct (map id' (items problem))"

text \<open>
  The sizes that pass the length check of the two \<open>Array\<close> calls of \<open>solve\<close>: the capacity is
  an integer, \<open>capacity + 1\<close> and \<open>n + 1\<close> are at most \<open>2^32 - 1\<close>.
\<close>

definition gridSized :: "KnapsackProblem \<Rightarrow> bool" where
  "gridSized problem \<longleftrightarrow>
     of_int \<lfloor>capacity problem\<rfloor> = capacity problem \<and> capacity problem \<le> 4294967294 \<and>
     length (items problem) \<le> 4294967294"

subsection \<open>The recurrence and the optimum over subsets\<close>

text \<open>Truncation toward zero, the integer grid unit of a weight.\<close>

definition trunc :: "rat \<Rightarrow> int" where
  "trunc x = (if 0 \<le> x then \<lfloor>x\<rfloor> else \<lceil>x\<rceil>)"

text \<open>
  The recurrence as the specification words it: \<open>best[0][w] = 0\<close>, and
  \<open>best[i][w] = max(best[i-1][w], best[i-1][w - weight_i] + profit_i)\<close> when
  \<open>weight_i \<le> w\<close>, else \<open>best[i-1][w]\<close>, over truncated weights. Item \<open>i\<close> is \<open>its ! (i - 1)\<close>.
\<close>

fun best :: "CargoItem list \<Rightarrow> nat \<Rightarrow> nat \<Rightarrow> rat" where
  "best its 0 w = 0"
| "best its (Suc i) w =
     (if trunc (weight (its ! i)) \<le> int w
      then max (best its i w) (best its i (nat (int w - trunc (weight (its ! i)))) + profit (its ! i))
      else best its i w)"

text \<open>
  The optimum over subsets: the largest summed profit of a sublist of the items whose
  summed truncated weights are at most \<open>W\<close>.
\<close>

definition profitSum :: "CargoItem list \<Rightarrow> rat" where
  "profitSum ys = sum_list (map profit ys)"

definition gridWeightSum :: "CargoItem list \<Rightarrow> int" where
  "gridWeightSum ys = sum_list (map (\<lambda>it. trunc (weight it)) ys)"

definition feasible :: "CargoItem list \<Rightarrow> nat \<Rightarrow> CargoItem list list" where
  "feasible its W = filter (\<lambda>ys. gridWeightSum ys \<le> int W) (subseqs its)"

definition optimum :: "CargoItem list \<Rightarrow> nat \<Rightarrow> rat" where
  "optimum its W = Max (set (map profitSum (feasible its W)))"

subsection \<open>What the loops compute\<close>

text \<open>The value that the inner loop of \<open>solve\<close> assigns to \<open>dp[i][w]\<close>, from the row \<open>dp[i - 1]\<close>.\<close>

definition cellVal :: "CargoItem \<Rightarrow> rat list \<Rightarrow> nat \<Rightarrow> rat" where
  "cellVal it prev w =
     (if \<lfloor>weight it\<rfloor> \<le> int w
      then max (prev ! w) (prev ! nat (int w - \<lfloor>weight it\<rfloor>) + profit it)
      else prev ! w)"

text \<open>Row \<open>i\<close> of the table once the outer loop has passed it.\<close>

fun rowSpec :: "CargoItem list \<Rightarrow> nat \<Rightarrow> nat \<Rightarrow> rat list" where
  "rowSpec its cap 0 = replicate (cap + 1) 0"
| "rowSpec its cap (Suc i) = map (cellVal (its ! i) (rowSpec its cap i)) [0..<cap + 1]"

text \<open>The state of the backtracking loop when \<open>solve\<close> leaves it, and the solution built from it.\<close>

definition solveTrace :: "KnapsackProblem \<Rightarrow> nat \<Rightarrow> backtrackState" where
  "solveTrace problem cap =
     backtrack (items problem) (fillTable (items problem) (length (items problem)) cap)
       (length (items problem)) ([], [], int cap, 0)"

definition solveResult :: "KnapsackProblem \<Rightarrow> nat \<Rightarrow> KnapsackSolution" where
  "solveResult problem cap =
     (let tr = solveTrace problem cap in
      \<lparr>selectedItemIds = fst tr,
       selectedItems = fst (snd tr),
       totalProfit = fillTable (items problem) (length (items problem)) cap
                       ! length (items problem) ! cap,
       totalWeight = snd (snd (snd tr)),
       remainingCapacity = capacity problem - snd (snd (snd tr)),
       utilizationPercentage = roundTo2 (snd (snd (snd tr)) / capacity problem * 100),
       method' = Dp01\<rparr>)"

text \<open>The items that the backtracking loop of \<open>solve\<close> selects from row \<open>i\<close> and budget \<open>w\<close>, in the order it pushes them.\<close>

fun selection :: "CargoItem list \<Rightarrow> table \<Rightarrow> nat \<Rightarrow> int \<Rightarrow> CargoItem list" where
  "selection its dp 0 w = []"
| "selection its dp (Suc j) w =
     (if w > 0 then
        (if dp ! Suc j ! nat w \<noteq> dp ! j ! nat w
         then its ! j # selection its dp j (w - \<lfloor>weight (its ! j)\<rfloor>)
         else selection its dp j w)
      else [])"

subsection \<open>The bounded variant\<close>

text \<open>
  The recurrence of the bounded variant as the specification words it:
  \<open>best[i][w][k] = max(best[i-1][w][k], best[i-1][w - weight_i][k-1] + profit_i)\<close> when
  \<open>weight_i \<le> w\<close> and \<open>k > 0\<close>, else \<open>best[i-1][w][k]\<close>.
\<close>

fun bestK :: "CargoItem list \<Rightarrow> nat \<Rightarrow> nat \<Rightarrow> nat \<Rightarrow> rat" where
  "bestK its 0 w k = 0"
| "bestK its (Suc i) w k =
     (if trunc (weight (its ! i)) \<le> int w \<and> 0 < k
      then max (bestK its i w k)
               (bestK its i (nat (int w - trunc (weight (its ! i)))) (k - 1) + profit (its ! i))
      else bestK its i w k)"

text \<open>The value that the innermost loop of \<open>solveWithItemLimit\<close> assigns to \<open>dp[i][w][k]\<close>.\<close>

definition cellVal3 :: "CargoItem \<Rightarrow> rat list list \<Rightarrow> nat \<Rightarrow> nat \<Rightarrow> rat" where
  "cellVal3 it prev w k =
     (if \<lfloor>weight it\<rfloor> \<le> int w \<and> 0 < k
      then max (prev ! w ! k) (prev ! nat (int w - \<lfloor>weight it\<rfloor>) ! (k - 1) + profit it)
      else prev ! w ! k)"

text \<open>The plane \<open>dp[i]\<close> once the outer loop has passed it.\<close>

fun planeSpec :: "CargoItem list \<Rightarrow> nat \<Rightarrow> nat \<Rightarrow> nat \<Rightarrow> rat list list" where
  "planeSpec its cap maxK 0 = replicate (cap + 1) (replicate (maxK + 1) 0)"
| "planeSpec its cap maxK (Suc i) =
     map (\<lambda>w. map (cellVal3 (its ! i) (planeSpec its cap maxK i) w) [0..<maxK + 1]) [0..<cap + 1]"

text \<open>
  The sizes that pass the length check of the three \<open>Array\<close> calls of \<open>solveWithItemLimit\<close>:
  the capacity and the limit are integers of at most \<open>2^32 - 2\<close>.
\<close>

definition limitSized :: "KnapsackProblem \<Rightarrow> rat \<Rightarrow> bool" where
  "limitSized problem maxItems \<longleftrightarrow>
     of_int \<lfloor>capacity problem\<rfloor> = capacity problem \<and> capacity problem \<le> 4294967294 \<and>
     of_int \<lfloor>maxItems\<rfloor> = maxItems \<and> maxItems \<le> 4294967294"

text \<open>
  The state of the backtracking loop when \<open>solveWithItemLimit\<close> leaves it, and the solution
  built from it; \<open>n\<close> is \<open>Math.min(items.length, maxItems)\<close>.
\<close>

definition limitTrace :: "KnapsackProblem \<Rightarrow> nat \<Rightarrow> nat \<Rightarrow> nat \<Rightarrow> backtrackState3" where
  "limitTrace problem n cap maxK =
     backtrack3 (items problem) (fillTable3 (items problem) n cap maxK) n
       ([], [], int cap, int maxK, 0)"

definition limitResult :: "KnapsackProblem \<Rightarrow> rat \<Rightarrow> nat \<Rightarrow> nat \<Rightarrow> nat \<Rightarrow> KnapsackSolution" where
  "limitResult problem maxItems n cap maxK =
     (let tr = limitTrace problem n cap maxK in
      \<lparr>selectedItemIds = fst tr,
       selectedItems = fst (snd tr),
       totalProfit = fillTable3 (items problem) n cap maxK ! n ! cap ! maxK,
       totalWeight = snd (snd (snd (snd tr))),
       remainingCapacity = capacity problem - snd (snd (snd (snd tr))),
       utilizationPercentage = roundTo2 (snd (snd (snd (snd tr))) / capacity problem * 100),
       method' = Dp01Max maxItems\<rparr>)"

section \<open>The table of solve\<close>

lemma fillCell_eq: "fillCell it i w dp = dp[i := (dp ! i)[w := cellVal it (dp ! (i - 1)) w]]"
  by (simp add: fillCell_def cellVal_def Let_def)

lemma fold_fillCell:
  assumes "0 < i" "i < length dp" "m \<le> length (dp ! i)"
  shows "fold (fillCell it i) [0..<m] dp =
         dp[i := map (cellVal it (dp ! (i - 1))) [0..<m] @ drop m (dp ! i)]"
  using assms(3)
proof (induction m)
  case 0
  then show ?case by simp
next
  case (Suc m)
  let ?R = "map (cellVal it (dp ! (i - 1))) [0..<m] @ drop m (dp ! i)"
  have m: "m < length (dp ! i)" using Suc.prems by simp
  have IH: "fold (fillCell it i) [0..<m] dp = dp[i := ?R]" using Suc by simp
  have prev: "dp[i := ?R] ! (i - 1) = dp ! (i - 1)" using assms(1) by simp
  have cur: "dp[i := ?R] ! i = ?R" using assms(2) by simp
  have upd: "?R[m := v] = map (cellVal it (dp ! (i - 1))) [0..<m] @ v # drop (Suc m) (dp ! i)" for v
    using m by (simp add: list_update_append Cons_nth_drop_Suc [symmetric] del: upt_Suc)
  have "fold (fillCell it i) [0..<Suc m] dp = fillCell it i m (fold (fillCell it i) [0..<m] dp)"
    by simp
  also have "\<dots> = fillCell it i m (dp[i := ?R])"
    by (simp only: IH)
  also have "\<dots> = (dp[i := ?R])[i := ?R[m := cellVal it (dp ! (i - 1)) m]]"
    unfolding fillCell_eq prev cur ..
  also have "\<dots> = dp[i := map (cellVal it (dp ! (i - 1))) [0..<Suc m] @ drop (Suc m) (dp ! i)]"
    unfolding list_update_overwrite upd by simp
  finally show ?case .
qed

lemma fillRow_eq:
  assumes "0 < i" "i < length dp" "length (dp ! i) = cap + 1"
  shows "fillRow its cap i dp = dp[i := map (cellVal (its ! (i - 1)) (dp ! (i - 1))) [0..<cap + 1]]"
  using fold_fillCell [OF assms(1,2), of "cap + 1" "its ! (i - 1)"] assms(3)
  by (simp add: fillRow_def)

lemma length_rowSpec: "length (rowSpec its cap i) = cap + 1"
  by (cases i) simp_all

lemma fold_fillRow:
  assumes "j \<le> n"
  shows "fold (fillRow its cap) [1..<j + 1] (replicate (n + 1) (replicate (cap + 1) 0)) =
         map (rowSpec its cap) [0..<j + 1] @ replicate (n - j) (replicate (cap + 1) 0)"
  using assms
proof (induction j)
  case 0
  then show ?case by simp
next
  case (Suc j)
  let ?T = "map (rowSpec its cap) [0..<j + 1] @ replicate (n - j) (replicate (cap + 1) 0)"
  have IH: "fold (fillRow its cap) [1..<j + 1] (replicate (n + 1) (replicate (cap + 1) 0)) = ?T"
    using Suc by simp
  have len: "Suc j < length ?T" using Suc.prems by simp
  have cur: "?T ! Suc j = replicate (cap + 1) 0" using Suc.prems by (simp add: nth_append)
  have prev: "?T ! j = rowSpec its cap j"
    by (simp add: nth_append del: upt_Suc rowSpec.simps)
  have step: "fillRow its cap (Suc j) ?T = ?T[Suc j := rowSpec its cap (Suc j)]"
    using fillRow_eq [of "Suc j" ?T cap its] len cur prev by (simp del: upt_Suc)
  have rep: "replicate (n - j) z = z # replicate (n - Suc j) z" for z :: "rat list"
    using Suc.prems by (cases "n - j") simp_all
  have "?T[Suc j := rowSpec its cap (Suc j)] =
        map (rowSpec its cap) [0..<Suc j + 1] @ replicate (n - Suc j) (replicate (cap + 1) 0)"
    by (subst rep) (simp add: list_update_append del: rowSpec.simps)
  then show ?case
    using IH step by (simp del: rowSpec.simps)
qed

lemma fillTable_nth:
  assumes "i \<le> n"
  shows "fillTable its n cap ! i = rowSpec its cap i"
proof -
  have "fillTable its n cap = map (rowSpec its cap) [0..<n + 1]"
    using fold_fillRow [of n n its cap] by (simp add: fillTable_def)
  then show ?thesis using assms by (simp del: upt_Suc rowSpec.simps add: nth_map_upt)
qed

subsection \<open>The table holds the recurrence, and the recurrence is the optimum\<close>

lemma trunc_floor: "0 \<le> x \<Longrightarrow> trunc x = \<lfloor>x\<rfloor>"
  by (simp add: trunc_def)

lemma rowSpec_best:
  assumes "\<forall>j<i. 0 \<le> weight (its ! j)" "w \<le> cap"
  shows "rowSpec its cap i ! w = best its i w"
  using assms
proof (induction i arbitrary: w)
  case 0
  then have "w < cap + 1" by simp
  then show ?case by (simp only: rowSpec.simps best.simps nth_replicate)
next
  case (Suc i)
  have wt: "0 \<le> weight (its ! i)" using Suc.prems by simp
  then have fl: "0 \<le> \<lfloor>weight (its ! i)\<rfloor>" by simp
  have prev: "rowSpec its cap i ! v = best its i v" if "v \<le> cap" for v
    using Suc.IH [of v] Suc.prems that by simp
  have idx: "nat (int w - \<lfloor>weight (its ! i)\<rfloor>) \<le> cap"
    using fl Suc.prems(2) by linarith
  have "rowSpec its cap (Suc i) ! w = cellVal (its ! i) (rowSpec its cap i) w"
    using Suc.prems(2) nth_map_upt [of w "cap + 1" 0 "cellVal (its ! i) (rowSpec its cap i)"]
    by simp
  then show ?case
    using prev [OF idx] prev [OF Suc.prems(2)] by (simp add: cellVal_def trunc_floor [OF wt])
qed

lemma set_subseqs_snoc:
  "set (subseqs (xs @ [x])) = set (subseqs xs) \<union> (\<lambda>ys. ys @ [x]) ` set (subseqs xs)"
  by (induction xs) (auto simp: Let_def image_Un image_image)

lemma profitSum_snoc: "profitSum (ys @ [x]) = profitSum ys + profit x"
  by (simp add: profitSum_def)

lemma gridWeightSum_snoc: "gridWeightSum (ys @ [x]) = gridWeightSum ys + trunc (weight x)"
  by (simp add: gridWeightSum_def)

lemma gridWeightSum_nonneg:
  "\<forall>y \<in> set ys. 0 \<le> weight y \<Longrightarrow> 0 \<le> gridWeightSum ys"
  by (induction ys) (simp_all add: gridWeightSum_def trunc_def)

lemma best_upper:
  assumes "i \<le> length its" "\<forall>j<i. 0 \<le> weight (its ! j)"
    "ys \<in> set (subseqs (take i its))" "gridWeightSum ys \<le> int w"
  shows "profitSum ys \<le> best its i w"
  using assms
proof (induction i arbitrary: w ys)
  case 0
  then show ?case by (simp add: profitSum_def)
next
  case (Suc i)
  have tk: "take (Suc i) its = take i its @ [its ! i]"
    using Suc.prems(1) by (simp add: take_Suc_conv_app_nth)
  have IH: "zs \<in> set (subseqs (take i its)) \<Longrightarrow> gridWeightSum zs \<le> int v \<Longrightarrow>
            profitSum zs \<le> best its i v" for zs v
    using Suc.IH [of zs v] Suc.prems(1,2) by simp
  from Suc.prems(3) consider
    (skip) "ys \<in> set (subseqs (take i its))" |
    (take) zs where "zs \<in> set (subseqs (take i its))" "ys = zs @ [its ! i]"
    unfolding tk set_subseqs_snoc by auto
  then show ?case
  proof cases
    case skip
    then have "profitSum ys \<le> best its i w" using IH Suc.prems(4) by simp
    then show ?thesis by (simp add: max_def)
  next
    case take
    have sub: "set zs \<subseteq> set (take i its)"
      using take(1) subseqs_powset [of "take i its"] by blast
    have "\<forall>y \<in> set zs. 0 \<le> weight y"
    proof
      fix y assume "y \<in> set zs"
      then have "y \<in> set (take i its)" using sub by blast
      then obtain j where "j < i" "j < length its" "y = its ! j"
        by (auto simp: in_set_conv_nth)
      then show "0 \<le> weight y" using Suc.prems(2) by simp
    qed
    then have nn: "0 \<le> gridWeightSum zs" by (rule gridWeightSum_nonneg)
    have le: "gridWeightSum zs + trunc (weight (its ! i)) \<le> int w"
      using Suc.prems(4) take(2) by (simp add: gridWeightSum_snoc)
    then have fits: "trunc (weight (its ! i)) \<le> int w" using nn by linarith
    have "gridWeightSum zs \<le> int (nat (int w - trunc (weight (its ! i))))"
      using le by linarith
    then have "profitSum zs \<le> best its i (nat (int w - trunc (weight (its ! i))))"
      using IH take(1) by simp
    then show ?thesis using fits take(2) by (simp add: profitSum_snoc max_def)
  qed
qed

lemma best_attained:
  assumes "i \<le> length its" "\<forall>j<i. 0 \<le> weight (its ! j)"
  shows "\<exists>ys \<in> set (subseqs (take i its)). gridWeightSum ys \<le> int w \<and> profitSum ys = best its i w"
  using assms
proof (induction i arbitrary: w)
  case 0
  then show ?case by (simp add: profitSum_def gridWeightSum_def)
next
  case (Suc i)
  have tk: "take (Suc i) its = take i its @ [its ! i]"
    using Suc.prems(1) by (simp add: take_Suc_conv_app_nth)
  have IH: "\<exists>ys \<in> set (subseqs (take i its)). gridWeightSum ys \<le> int v \<and> profitSum ys = best its i v" for v
    using Suc.IH [of v] Suc.prems by simp
  let ?wt = "trunc (weight (its ! i))"
  have nn: "0 \<le> ?wt" using Suc.prems(2) by (simp add: trunc_def)
  show ?case
  proof (cases "?wt \<le> int w \<and> best its i w < best its i (nat (int w - ?wt)) + profit (its ! i)")
    case True
    obtain zs where zs: "zs \<in> set (subseqs (take i its))"
      "gridWeightSum zs \<le> int (nat (int w - ?wt))"
      "profitSum zs = best its i (nat (int w - ?wt))"
      using IH [of "nat (int w - ?wt)"] by blast
    have "zs @ [its ! i] \<in> set (subseqs (take (Suc i) its))"
      unfolding tk set_subseqs_snoc using zs(1) by blast
    moreover have "gridWeightSum (zs @ [its ! i]) \<le> int w"
      using zs(2) True by (simp add: gridWeightSum_snoc)
    moreover have "profitSum (zs @ [its ! i]) = best its (Suc i) w"
      using zs(3) True by (simp add: profitSum_snoc max_def)
    ultimately show ?thesis by blast
  next
    case False
    obtain zs where zs: "zs \<in> set (subseqs (take i its))"
      "gridWeightSum zs \<le> int w" "profitSum zs = best its i w"
      using IH [of w] by blast
    have "zs \<in> set (subseqs (take (Suc i) its))"
      unfolding tk set_subseqs_snoc using zs(1) by blast
    moreover have "profitSum zs = best its (Suc i) w"
      using zs(3) False by (auto simp: max_def)
    ultimately show ?thesis using zs(2) by blast
  qed
qed

lemma best_optimum:
  assumes "\<forall>y \<in> set its. 0 \<le> weight y"
  shows "best its (length its) w = optimum its w"
proof -
  have pos: "\<forall>j<length its. 0 \<le> weight (its ! j)" using assms by simp
  obtain ys where ys: "ys \<in> set (subseqs its)" "gridWeightSum ys \<le> int w"
    "profitSum ys = best its (length its) w"
    using best_attained [of "length its" its w] pos by auto
  have fin: "finite (set (map profitSum (feasible its w)))" by simp
  have mem: "best its (length its) w \<in> set (map profitSum (feasible its w))"
    using ys by (force simp: feasible_def)
  have ub: "\<And>v. v \<in> set (map profitSum (feasible its w)) \<Longrightarrow> v \<le> best its (length its) w"
    using best_upper [of "length its" its _ w] pos by (auto simp: feasible_def)
  show ?thesis
    unfolding optimum_def using Max_eqI [OF fin ub mem] by simp
qed

section \<open>Validation and the outcome of solve\<close>

lemma checkItems_None:
  "checkItems k xs = None \<longleftrightarrow> (\<forall>it \<in> set xs. 0 < weight it \<and> 0 \<le> profit it)"
  by (induction xs arbitrary: k) (auto simp: not_le not_less)

lemma checkItems_Some:
  "checkItems k xs = Some e \<Longrightarrow> (\<exists>i. e = InvalidWeight i) \<or> (\<exists>i. e = NegativeProfit i)"
  by (induction xs arbitrary: k) (auto split: if_splits)

lemma validateProblem_None: "validateProblem problem = None \<longleftrightarrow> preconditions problem"
proof -
  have "length (map id' (items problem)) = card (set (map id' (items problem)))
        \<longleftrightarrow> distinct (map id' (items problem))"
    using distinct_card [of "map id' (items problem)"] card_distinct [of "map id' (items problem)"]
    by auto
  then show ?thesis
    using checkItems_None [of 0 "items problem"]
    by (auto simp: validateProblem_def preconditions_def Let_def not_le
             split: option.splits simp del: length_map)
qed

lemma validateProblem_not_RangeError: "validateProblem problem \<noteq> Some RangeError"
  using checkItems_Some [of 0 "items problem" RangeError]
  by (auto simp: validateProblem_def Let_def split: option.splits if_splits)

lemma validateProblem_not_InvalidItemLimit: "validateProblem problem \<noteq> Some InvalidItemLimit"
  using checkItems_Some [of 0 "items problem" InvalidItemLimit]
  by (auto simp: validateProblem_def Let_def split: option.splits if_splits)

lemma arrayLength_Some:
  "arrayLength len = Some c \<longleftrightarrow>
     of_int \<lfloor>len\<rfloor> = len \<and> 0 \<le> len \<and> len \<le> 4294967295 \<and> c = nat \<lfloor>len\<rfloor>"
  by (auto simp: arrayLength_def)

lemma arrayLength_of_nat:
  "arrayLength (of_nat n + 1) = (if n \<le> 4294967294 then Some (n + 1) else None)"
proof -
  have "of_nat n + (1::rat) = of_nat (n + 1)" by simp
  then have fl: "\<lfloor>of_nat n + (1::rat)\<rfloor> = int (n + 1)" by (metis floor_of_nat)
  have le: "(of_nat n + (1::rat) \<le> 4294967295) = (n \<le> 4294967294)"
  proof -
    have "(of_nat n + (1::rat) \<le> 4294967295) = (of_nat (n + 1) \<le> (of_nat 4294967295 :: rat))"
      by simp
    also have "\<dots> = (n + 1 \<le> 4294967295)" by (simp only: of_nat_le_iff)
    finally show ?thesis by simp
  qed
  show ?thesis
    unfolding arrayLength_def fl le by (simp add: nat_add_distrib)
qed

lemma arrayLength_capacity:
  assumes "0 < capacity problem"
  shows "(\<exists>c. arrayLength (capacity problem + 1) = Some c) \<longleftrightarrow>
         of_int \<lfloor>capacity problem\<rfloor> = capacity problem \<and> capacity problem \<le> 4294967294"
proof -
  have "(of_int \<lfloor>capacity problem + 1\<rfloor> = capacity problem + 1)
        = (of_int \<lfloor>capacity problem\<rfloor> = capacity problem)"
    by simp
  then show ?thesis using assms by (auto simp: arrayLength_def)
qed

lemma solve_Inl_validation:
  "validateProblem problem = Some e \<Longrightarrow> solve problem = Inl e"
  by (simp add: solve_def)

lemma solve_RangeError:
  assumes "preconditions problem" "\<not> gridSized problem"
  shows "solve problem = Inl RangeError"
proof -
  have v: "validateProblem problem = None" using assms(1) by (simp add: validateProblem_None)
  have pos: "0 < capacity problem" using assms(1) by (simp add: preconditions_def)
  have "arrayLength (of_nat (length (items problem)) + 1) = None
        \<or> arrayLength (capacity problem + 1) = None"
    using arrayLength_capacity [OF pos] arrayLength_of_nat [of "length (items problem)"] assms(2)
    by (auto simp: gridSized_def)
  then show ?thesis using v
    by (auto simp: solve_def Let_def split: option.splits)
qed

lemma solve_ok:
  assumes "preconditions problem" "gridSized problem"
  shows "solve problem = Inr (solveResult problem (nat \<lfloor>capacity problem\<rfloor>))"
proof -
  have v: "validateProblem problem = None" using assms(1) by (simp add: validateProblem_None)
  have pos: "0 < capacity problem" using assms(1) by (simp add: preconditions_def)
  have r: "arrayLength (of_nat (length (items problem)) + 1) = Some (length (items problem) + 1)"
    using assms(2) by (simp add: arrayLength_of_nat gridSized_def)
  obtain c where c: "arrayLength (capacity problem + 1) = Some c"
    using arrayLength_capacity [OF pos] assms(2) by (auto simp: gridSized_def)
  then have "c = nat \<lfloor>capacity problem + 1\<rfloor>" by (simp add: arrayLength_Some)
  then have c1: "c - 1 = nat \<lfloor>capacity problem\<rfloor>" using pos by simp
  have "solve problem = Inr (solveResult problem (c - 1))"
    by (simp add: solve_def v r c Let_def solveTrace_def solveResult_def split_beta)
  then show ?thesis unfolding c1 .
qed

lemma solve_not_preconditions:
  assumes "\<not> preconditions problem"
  shows "\<exists>e. validateProblem problem = Some e \<and> solve problem = Inl e"
  using assms validateProblem_None [of problem] solve_Inl_validation [of problem]
  by (cases "validateProblem problem") auto

lemma solve_Inr_iff:
  "solve problem = Inr s \<longleftrightarrow>
     preconditions problem \<and> gridSized problem \<and> s = solveResult problem (nat \<lfloor>capacity problem\<rfloor>)"
  using solve_ok [of problem] solve_RangeError [of problem] solve_not_preconditions [of problem]
  by (cases "preconditions problem"; cases "gridSized problem") auto

lemma totalProfit_solveResult:
  assumes "\<forall>it \<in> set (items problem). 0 \<le> weight it"
  shows "totalProfit (solveResult problem cap) = best (items problem) (length (items problem)) cap"
proof -
  have "\<forall>j<length (items problem). 0 \<le> weight (items problem ! j)" using assms by simp
  then show ?thesis
    by (simp add: solveResult_def Let_def fillTable_nth rowSpec_best)
qed

section \<open>Monotonicity of the recurrence\<close>

lemma best_mono:
  assumes "\<forall>j<i. weight (its' ! j) = weight (its ! j) \<and> profit (its ! j) \<le> profit (its' ! j)"
  shows "best its i w \<le> best its' i w"
  using assms
proof (induction i arbitrary: w)
  case 0
  then show ?case by simp
next
  case (Suc i)
  have IH: "best its i v \<le> best its' i v" for v
    using Suc.IH [of v] Suc.prems by simp
  have wt: "weight (its' ! i) = weight (its ! i)" and pr: "profit (its ! i) \<le> profit (its' ! i)"
    using Suc.prems by simp_all
  show ?case
  proof (cases "trunc (weight (its ! i)) \<le> int w")
    case True
    have "best its i (nat (int w - trunc (weight (its ! i)))) + profit (its ! i)
          \<le> best its' i (nat (int w - trunc (weight (its ! i)))) + profit (its' ! i)"
      using IH pr by (rule add_mono)
    then show ?thesis using True IH [of w] wt by (simp add: max.coboundedI1 max.coboundedI2)
  next
    case False
    then show ?thesis using IH [of w] wt by simp
  qed
qed

lemma preconditions_raise_profit:
  assumes "preconditions problem" "j < length (items problem)" "profit (items problem ! j) \<le> q"
  shows "preconditions (problem\<lparr>items := (items problem)[j := (items problem ! j)\<lparr>profit := q\<rparr>]\<rparr>)"
proof -
  let ?new = "(items problem ! j)\<lparr>profit := q\<rparr>"
  have old: "0 < weight (items problem ! j) \<and> 0 \<le> profit (items problem ! j)"
    using assms(1,2) by (simp add: preconditions_def)
  have "\<forall>it \<in> set ((items problem)[j := ?new]). 0 < weight it \<and> 0 \<le> profit it"
  proof
    fix it assume "it \<in> set ((items problem)[j := ?new])"
    then have "it = ?new \<or> it \<in> set (items problem)"
      using set_update_subset_insert [of "items problem" j ?new] by auto
    then show "0 < weight it \<and> 0 \<le> profit it"
      using old assms(1,3) by (auto simp: preconditions_def)
  qed
  moreover have "map id' ((items problem)[j := ?new]) = map id' (items problem)"
    using assms(2) by (simp add: map_update list_update_same_conv)
  ultimately show ?thesis
    using assms(1,2) by (simp add: preconditions_def)
qed

section \<open>optimizeMultipleScenarios\<close>

lemma optimizeMultipleScenarios_Inr:
  "optimizeMultipleScenarios problems = Inr ss \<longleftrightarrow> map solve problems = map Inr ss"
proof (induction problems arbitrary: ss)
  case Nil
  then show ?case by auto
next
  case (Cons p ps)
  show ?case
  proof (cases "solve p")
    case (Inl e)
    then show ?thesis by (cases ss) simp_all
  next
    case (Inr s)
    show ?thesis
    proof (cases "optimizeMultipleScenarios ps")
      case (Inl e)
      have "\<And>ss'. map solve ps \<noteq> map Inr ss'"
        using Cons.IH Inl by (metis sum.distinct(1))
      then show ?thesis
        using Inl \<open>solve p = Inr s\<close> by (cases ss) simp_all
    next
      case r: (Inr rest)
      have eq: "map solve ps = map Inr rest" using Cons.IH [of rest] r by simp
      have "map Inr rest = map Inr ss' \<longleftrightarrow> rest = ss'" for ss' :: "KnapsackSolution list"
        and rest :: "KnapsackSolution list"
        by (simp add: inj_map_eq_map [OF inj_Inr])
      then show ?thesis
        using r \<open>solve p = Inr s\<close> eq by (cases ss) auto
    qed
  qed
qed

lemma optimizeMultipleScenarios_Inl:
  "optimizeMultipleScenarios problems = Inl e \<longleftrightarrow>
     (\<exists>k<length problems. solve (problems ! k) = Inl e \<and> (\<forall>i<k. \<exists>s. solve (problems ! i) = Inr s))"
proof (induction problems)
  case Nil
  then show ?case by simp
next
  case (Cons p ps)
  show ?case
  proof (cases "solve p")
    case (Inl e')
    show ?thesis
    proof
      assume "optimizeMultipleScenarios (p # ps) = Inl e"
      then have "solve ((p # ps) ! 0) = Inl e" using Inl by simp
      then show "\<exists>k<length (p # ps). solve ((p # ps) ! k) = Inl e \<and>
                   (\<forall>i<k. \<exists>s. solve ((p # ps) ! i) = Inr s)"
        by (intro exI [of _ 0]) simp
    next
      assume "\<exists>k<length (p # ps). solve ((p # ps) ! k) = Inl e \<and>
                   (\<forall>i<k. \<exists>s. solve ((p # ps) ! i) = Inr s)"
      then obtain k where k: "k < length (p # ps)" "solve ((p # ps) ! k) = Inl e"
        "\<forall>i<k. \<exists>s. solve ((p # ps) ! i) = Inr s" by blast
      have "k = 0"
      proof (rule ccontr)
        assume "k \<noteq> 0"
        then have "\<exists>s. solve ((p # ps) ! 0) = Inr s" using k(3) by blast
        then show False using Inl by simp
      qed
      then show "optimizeMultipleScenarios (p # ps) = Inl e" using k(2) Inl by simp
    qed
  next
    case (Inr s)
    have "optimizeMultipleScenarios (p # ps) = Inl e \<longleftrightarrow> optimizeMultipleScenarios ps = Inl e"
      using Inr by (cases "optimizeMultipleScenarios ps") auto
    also have "\<dots> \<longleftrightarrow> (\<exists>k<length ps. solve (ps ! k) = Inl e \<and> (\<forall>i<k. \<exists>s. solve (ps ! i) = Inr s))"
      by (rule Cons.IH)
    also have "\<dots> \<longleftrightarrow> (\<exists>k<length (p # ps). solve ((p # ps) ! k) = Inl e \<and>
                   (\<forall>i<k. \<exists>s. solve ((p # ps) ! i) = Inr s))"
    proof
      assume "\<exists>k<length ps. solve (ps ! k) = Inl e \<and> (\<forall>i<k. \<exists>s. solve (ps ! i) = Inr s)"
      then obtain k where k: "k < length ps" "solve (ps ! k) = Inl e"
        "\<forall>i<k. \<exists>s. solve (ps ! i) = Inr s" by blast
      have "\<forall>i<Suc k. \<exists>s. solve ((p # ps) ! i) = Inr s"
      proof (intro allI impI)
        fix i assume i: "i < Suc k"
        show "\<exists>s. solve ((p # ps) ! i) = Inr s"
        proof (cases i)
          case 0
          then show ?thesis using Inr by simp
        next
          case (Suc i')
          then show ?thesis using k(3) i by simp
        qed
      qed
      then show "\<exists>k<length (p # ps). solve ((p # ps) ! k) = Inl e \<and>
                   (\<forall>i<k. \<exists>s. solve ((p # ps) ! i) = Inr s)"
        using k(1,2) by (intro exI [of _ "Suc k"]) simp
    next
      assume "\<exists>k<length (p # ps). solve ((p # ps) ! k) = Inl e \<and>
                   (\<forall>i<k. \<exists>s. solve ((p # ps) ! i) = Inr s)"
      then obtain k where k: "k < length (p # ps)" "solve ((p # ps) ! k) = Inl e"
        "\<forall>i<k. \<exists>s. solve ((p # ps) ! i) = Inr s" by blast
      then obtain k' where k': "k = Suc k'" using Inr by (cases k) auto
      have "\<forall>i<k'. \<exists>s. solve (ps ! i) = Inr s"
      proof (intro allI impI)
        fix i assume "i < k'"
        then have "Suc i < k" using k' by simp
        then show "\<exists>s. solve (ps ! i) = Inr s" using k(3) by fastforce
      qed
      then show "\<exists>k<length ps. solve (ps ! k) = Inl e \<and> (\<forall>i<k. \<exists>s. solve (ps ! i) = Inr s)"
        using k(1,2) k' by (intro exI [of _ k']) simp
    qed
    finally show ?thesis .
  qed
qed

section \<open>Sorting by a comparator\<close>

lemma mset_insertBy: "mset (insertBy cmp x ys) = add_mset x (mset ys)"
  by (induction ys) simp_all

lemma mset_sortBy: "mset (sortBy cmp xs) = mset xs"
  by (induction xs) (simp_all add: sortBy_def mset_insertBy)

lemma set_insertBy: "set (insertBy cmp x ys) = insert x (set ys)"
  by (induction ys) auto

lemma sorted_insertBy:
  assumes "sorted_wrt (\<lambda>a b. f b \<le> f a) ys"
  shows "sorted_wrt (\<lambda>a b. f b \<le> f a) (insertBy (\<lambda>a b. f b - f a) x ys)"
  using assms
proof (induction ys)
  case Nil
  then show ?case by simp
next
  case (Cons y ys)
  show ?case
  proof (cases "f y - f x \<le> (0::rat)")
    case True
    then have "\<forall>z \<in> set ys. f z \<le> f x" using Cons.prems by auto
    then show ?thesis using True Cons.prems by auto
  next
    case False
    then show ?thesis using Cons by (auto simp: set_insertBy)
  qed
qed

lemma sorted_sortBy:
  "sorted_wrt (\<lambda>a b. f b \<le> f a) (sortBy (\<lambda>a b. f b - f a) xs)"
  by (induction xs) (simp_all add: sortBy_def sorted_insertBy)

section \<open>The table of solveWithItemLimit\<close>

lemma fillCell3_eq:
  "fillCell3 it i w k dp = dp[i := (dp ! i)[w := (dp ! i ! w)[k := cellVal3 it (dp ! (i - 1)) w k]]]"
  by (simp add: fillCell3_def cellVal3_def Let_def)

lemma fold_fillCell3:
  assumes "0 < i" "i < length dp" "w < length (dp ! i)" "m \<le> length (dp ! i ! w)"
  shows "fold (fillCell3 it i w) [0..<m] dp =
         dp[i := (dp ! i)[w := map (cellVal3 it (dp ! (i - 1)) w) [0..<m] @ drop m (dp ! i ! w)]]"
  using assms(4)
proof (induction m)
  case 0
  then show ?case by simp
next
  case (Suc m)
  let ?R = "map (cellVal3 it (dp ! (i - 1)) w) [0..<m] @ drop m (dp ! i ! w)"
  let ?D = "dp[i := (dp ! i)[w := ?R]]"
  have m: "m < length (dp ! i ! w)" using Suc.prems by simp
  have IH: "fold (fillCell3 it i w) [0..<m] dp = ?D" using Suc by simp
  have prev: "?D ! (i - 1) = dp ! (i - 1)" using assms(1) by simp
  have cur: "?D ! i = (dp ! i)[w := ?R]" using assms(2) by simp
  have cur2: "(dp ! i)[w := ?R] ! w = ?R" using assms(3) by simp
  have upd: "?R[m := v] = map (cellVal3 it (dp ! (i - 1)) w) [0..<m] @ v # drop (Suc m) (dp ! i ! w)" for v
    using m by (simp add: list_update_append Cons_nth_drop_Suc [symmetric] del: upt_Suc)
  have "fold (fillCell3 it i w) [0..<Suc m] dp = fillCell3 it i w m (fold (fillCell3 it i w) [0..<m] dp)"
    by simp
  also have "\<dots> = fillCell3 it i w m ?D"
    by (simp only: IH)
  also have "\<dots> = ?D[i := ((dp ! i)[w := ?R])[w := ?R[m := cellVal3 it (dp ! (i - 1)) w m]]]"
    unfolding fillCell3_eq prev cur cur2 ..
  also have "\<dots> = dp[i := (dp ! i)[w := map (cellVal3 it (dp ! (i - 1)) w) [0..<Suc m]
                                          @ drop (Suc m) (dp ! i ! w)]]"
    unfolding list_update_overwrite upd by simp
  finally show ?case .
qed

lemma fillCol3_eq:
  assumes "0 < i" "i < length dp" "w < length (dp ! i)" "length (dp ! i ! w) = maxK + 1"
  shows "fillCol3 it i maxK w dp =
         dp[i := (dp ! i)[w := map (cellVal3 it (dp ! (i - 1)) w) [0..<maxK + 1]]]"
  using fold_fillCell3 [OF assms(1,2,3), of "maxK + 1" it] assms(4)
  by (simp add: fillCol3_def)

lemma fold_fillCol3:
  assumes "0 < i" "i < length dp" "m \<le> length (dp ! i)"
    "\<forall>w<length (dp ! i). length (dp ! i ! w) = maxK + 1"
  shows "fold (fillCol3 it i maxK) [0..<m] dp =
         dp[i := map (\<lambda>w. map (cellVal3 it (dp ! (i - 1)) w) [0..<maxK + 1]) [0..<m]
                  @ drop m (dp ! i)]"
  using assms(3)
proof (induction m)
  case 0
  then show ?case by simp
next
  case (Suc m)
  let ?f = "\<lambda>w. map (cellVal3 it (dp ! (i - 1)) w) [0..<maxK + 1]"
  let ?R = "map ?f [0..<m] @ drop m (dp ! i)"
  let ?D = "dp[i := ?R]"
  have m: "m < length (dp ! i)" using Suc.prems by simp
  have IH: "fold (fillCol3 it i maxK) [0..<m] dp = ?D" using Suc by simp
  have prev: "?D ! (i - 1) = dp ! (i - 1)" using assms(1) by simp
  have cur: "?D ! i = ?R" using assms(2) by simp
  have lenD: "i < length ?D" using assms(2) by simp
  have lenR: "m < length (?D ! i)" unfolding cur using m by simp
  have Rm: "?R ! m = dp ! i ! m" using m by (simp add: nth_append)
  have lenRm: "length (?D ! i ! m) = maxK + 1" unfolding cur Rm using assms(4) m by simp
  have upd: "?R[m := v] = map ?f [0..<m] @ v # drop (Suc m) (dp ! i)" for v
    using m by (simp add: list_update_append Cons_nth_drop_Suc [symmetric] del: upt_Suc)
  have "fold (fillCol3 it i maxK) [0..<Suc m] dp
        = fillCol3 it i maxK m (fold (fillCol3 it i maxK) [0..<m] dp)"
    by simp
  also have "\<dots> = fillCol3 it i maxK m ?D"
    by (simp only: IH)
  also have "\<dots> = ?D[i := (?D ! i)[m := map (cellVal3 it (?D ! (i - 1)) m) [0..<maxK + 1]]]"
    by (rule fillCol3_eq [OF assms(1) lenD lenR lenRm])
  also have "\<dots> = ?D[i := ?R[m := ?f m]]"
    unfolding prev cur ..
  also have "\<dots> = dp[i := map ?f [0..<Suc m] @ drop (Suc m) (dp ! i)]"
    unfolding list_update_overwrite upd by simp
  finally show ?case .
qed

lemma fillRow3_eq:
  assumes "0 < i" "i < length dp" "length (dp ! i) = cap + 1"
    "\<forall>w<length (dp ! i). length (dp ! i ! w) = maxK + 1"
  shows "fillRow3 its cap maxK i dp =
         dp[i := map (\<lambda>w. map (cellVal3 (its ! (i - 1)) (dp ! (i - 1)) w) [0..<maxK + 1])
                  [0..<cap + 1]]"
  using fold_fillCol3 [OF assms(1,2) _ assms(4), of "cap + 1" "its ! (i - 1)"] assms(3)
  by (simp add: fillRow3_def)

lemma fold_fillRow3:
  assumes "j \<le> n"
  shows "fold (fillRow3 its cap maxK) [1..<j + 1]
           (replicate (n + 1) (replicate (cap + 1) (replicate (maxK + 1) 0))) =
         map (planeSpec its cap maxK) [0..<j + 1]
           @ replicate (n - j) (replicate (cap + 1) (replicate (maxK + 1) 0))"
  using assms
proof (induction j)
  case 0
  then show ?case by simp
next
  case (Suc j)
  let ?z = "replicate (cap + 1) (replicate (maxK + 1) (0::rat))"
  let ?T = "map (planeSpec its cap maxK) [0..<j + 1] @ replicate (n - j) ?z"
  have IH: "fold (fillRow3 its cap maxK) [1..<j + 1] (replicate (n + 1) ?z) = ?T"
    using Suc by simp
  have len: "Suc j < length ?T" using Suc.prems by simp
  have cur: "?T ! Suc j = ?z" using Suc.prems by (simp add: nth_append)
  have prev: "?T ! (Suc j - 1) = planeSpec its cap maxK j"
    by (simp add: nth_append del: upt_Suc planeSpec.simps)
  have l1: "length (?T ! Suc j) = cap + 1" unfolding cur by simp
  have l2: "\<forall>w<length (?T ! Suc j). length (?T ! Suc j ! w) = maxK + 1"
    unfolding cur by (simp del: replicate_Suc)
  have "fillRow3 its cap maxK (Suc j) ?T =
        ?T[Suc j := map (\<lambda>w. map (cellVal3 (its ! (Suc j - 1)) (?T ! (Suc j - 1)) w) [0..<maxK + 1])
                     [0..<cap + 1]]"
    by (rule fillRow3_eq [OF _ len l1 l2]) simp
  then have step: "fillRow3 its cap maxK (Suc j) ?T = ?T[Suc j := planeSpec its cap maxK (Suc j)]"
    unfolding prev by simp
  have rep: "replicate (n - j) z = z # replicate (n - Suc j) z" for z :: "rat list list"
    using Suc.prems by (cases "n - j") simp_all
  have "?T[Suc j := planeSpec its cap maxK (Suc j)] =
        map (planeSpec its cap maxK) [0..<Suc j + 1] @ replicate (n - Suc j) ?z"
    by (subst rep) (simp add: list_update_append del: planeSpec.simps)
  then show ?case
    using IH step by (simp del: planeSpec.simps)
qed

lemma fillTable3_nth:
  assumes "i \<le> n"
  shows "fillTable3 its n cap maxK ! i = planeSpec its cap maxK i"
proof -
  have "fillTable3 its n cap maxK = map (planeSpec its cap maxK) [0..<n + 1]"
    using fold_fillRow3 [of n n its cap maxK] by (simp add: fillTable3_def)
  then show ?thesis using assms by (simp del: upt_Suc planeSpec.simps add: nth_map_upt)
qed

lemma planeSpec_bestK:
  assumes "\<forall>j<i. 0 \<le> weight (its ! j)" "w \<le> cap" "k \<le> maxK"
  shows "planeSpec its cap maxK i ! w ! k = bestK its i w k"
  using assms
proof (induction i arbitrary: w k)
  case 0
  then have "w < cap + 1" "k < maxK + 1" by simp_all
  then show ?case by (simp only: planeSpec.simps bestK.simps nth_replicate)
next
  case (Suc i)
  have wt: "0 \<le> weight (its ! i)" using Suc.prems by simp
  then have fl: "0 \<le> \<lfloor>weight (its ! i)\<rfloor>" by simp
  have prev: "planeSpec its cap maxK i ! v ! l = bestK its i v l" if "v \<le> cap" "l \<le> maxK" for v l
    using Suc.IH [of v l] Suc.prems that by simp
  have idx: "nat (int w - \<lfloor>weight (its ! i)\<rfloor>) \<le> cap"
    using fl Suc.prems(2) by linarith
  have k1: "k - 1 \<le> maxK" using Suc.prems(3) by simp
  have "planeSpec its cap maxK (Suc i) ! w ! k = cellVal3 (its ! i) (planeSpec its cap maxK i) w k"
    using Suc.prems(2,3)
      nth_map_upt [of w "cap + 1" 0
        "\<lambda>w. map (cellVal3 (its ! i) (planeSpec its cap maxK i) w) [0..<maxK + 1]"]
      nth_map_upt [of k "maxK + 1" 0 "cellVal3 (its ! i) (planeSpec its cap maxK i) w"]
    by simp
  then show ?case
    using prev [OF idx k1] prev [OF Suc.prems(2,3)]
    by (simp add: cellVal3_def trunc_floor [OF wt])
qed

lemma bestK_eq_best: "i \<le> k \<Longrightarrow> bestK its i w k = best its i w"
  by (induction i arbitrary: w k) simp_all


section \<open>Validation and the outcome of solveWithItemLimit\<close>

lemma arrayLength_succ:
  assumes "0 < x"
  shows "arrayLength (x + 1) =
         (if of_int \<lfloor>x\<rfloor> = x \<and> x \<le> 4294967294 then Some (nat \<lfloor>x\<rfloor> + 1) else None)"
proof -
  have "(of_int \<lfloor>x + 1\<rfloor> = x + 1) = (of_int \<lfloor>x\<rfloor> = x)" by simp
  moreover have "nat \<lfloor>x + 1\<rfloor> = nat \<lfloor>x\<rfloor> + 1" using assms by (simp add: nat_add_distrib)
  ultimately show ?thesis using assms by (auto simp: arrayLength_def)
qed

lemma of_nat_nat_floor:
  assumes "0 < (m::rat)" "of_int \<lfloor>m\<rfloor> = m"
  shows "of_nat (nat \<lfloor>m\<rfloor>) = m"
proof -
  have "0 \<le> \<lfloor>m\<rfloor>" using assms(1) by simp
  then have "rat_of_nat (nat \<lfloor>m\<rfloor>) = rat_of_int \<lfloor>m\<rfloor>" by simp
  then show ?thesis using assms(2) by simp
qed

lemma min_of_nat_floor:
  assumes "0 < (m::rat)" "of_int \<lfloor>m\<rfloor> = m"
  shows "min (of_nat n) m = of_nat (min n (nat \<lfloor>m\<rfloor>))"
proof -
  have "min (rat_of_nat n) (of_nat (nat \<lfloor>m\<rfloor>)) = of_nat (min n (nat \<lfloor>m\<rfloor>))"
    by (simp add: min_def)
  then show ?thesis unfolding of_nat_nat_floor [OF assms] .
qed

lemma solveWithItemLimit_validation:
  "validateProblem problem = Some e \<Longrightarrow> solveWithItemLimit problem maxItems = Inl e"
  by (simp add: solveWithItemLimit_def)

lemma solveWithItemLimit_limit:
  "preconditions problem \<Longrightarrow> maxItems \<le> 0 \<Longrightarrow>
   solveWithItemLimit problem maxItems = Inl InvalidItemLimit"
  using validateProblem_None [of problem] by (simp add: solveWithItemLimit_def)

lemma solveWithItemLimit_RangeError:
  assumes "preconditions problem" "0 < maxItems" "\<not> limitSized problem maxItems"
  shows "solveWithItemLimit problem maxItems = Inl RangeError"
proof -
  have v: "validateProblem problem = None" using assms(1) by (simp add: validateProblem_None)
  have pos: "0 < capacity problem" using assms(1) by (simp add: preconditions_def)
  have "arrayLength (capacity problem + 1) = None \<or> arrayLength (maxItems + 1) = None"
    using assms(3) arrayLength_succ [OF pos] arrayLength_succ [OF assms(2)]
    by (auto simp: limitSized_def)
  then show ?thesis using v assms(2)
    by (auto simp: solveWithItemLimit_def Let_def split: option.splits)
qed

lemma solveWithItemLimit_ok:
  assumes "preconditions problem" "0 < maxItems" "limitSized problem maxItems"
  shows "solveWithItemLimit problem maxItems =
         Inr (limitResult problem maxItems (min (length (items problem)) (nat \<lfloor>maxItems\<rfloor>))
                (nat \<lfloor>capacity problem\<rfloor>) (nat \<lfloor>maxItems\<rfloor>))"
proof -
  let ?n = "min (length (items problem)) (nat \<lfloor>maxItems\<rfloor>)"
  have v: "validateProblem problem = None" using assms(1) by (simp add: validateProblem_None)
  have pos: "0 < capacity problem" using assms(1) by (simp add: preconditions_def)
  have m: "of_int \<lfloor>maxItems\<rfloor> = maxItems" "maxItems \<le> 4294967294"
    and c: "of_int \<lfloor>capacity problem\<rfloor> = capacity problem" "capacity problem \<le> 4294967294"
    using assms(3) by (simp_all add: limitSized_def)
  have nr: "min (of_nat (length (items problem))) maxItems = of_nat ?n"
    by (rule min_of_nat_floor [OF assms(2) m(1)])
  have "rat_of_nat (nat \<lfloor>maxItems\<rfloor>) = maxItems"
    by (rule of_nat_nat_floor [OF assms(2) m(1)])
  then have "rat_of_nat (nat \<lfloor>maxItems\<rfloor>) \<le> rat_of_nat 4294967294" using m(2) by simp
  then have "nat \<lfloor>maxItems\<rfloor> \<le> 4294967294" by (simp only: of_nat_le_iff)
  then have "?n \<le> 4294967294" by simp
  then have a1: "arrayLength (of_nat ?n + 1) = Some (?n + 1)"
    by (simp add: arrayLength_of_nat)
  have a2: "arrayLength (capacity problem + 1) = Some (nat \<lfloor>capacity problem\<rfloor> + 1)"
    using arrayLength_succ [OF pos] c by simp
  have a3: "arrayLength (maxItems + 1) = Some (nat \<lfloor>maxItems\<rfloor> + 1)"
    using arrayLength_succ [OF assms(2)] m by simp
  have le: "\<not> maxItems \<le> 0" using assms(2) by simp
  have "solveWithItemLimit problem maxItems =
        (let n = ?n + 1 - 1; cap = nat \<lfloor>capacity problem\<rfloor> + 1 - 1; maxK = nat \<lfloor>maxItems\<rfloor> + 1 - 1;
             dp = fillTable3 (items problem) n cap maxK;
             (ids, sel, w, k, tw) = backtrack3 (items problem) dp n ([], [], int cap, int maxK, 0)
         in Inr \<lparr>selectedItemIds = ids, selectedItems = sel,
                 totalProfit = dp ! n ! cap ! maxK, totalWeight = tw,
                 remainingCapacity = capacity problem - tw,
                 utilizationPercentage = roundTo2 (tw / capacity problem * 100),
                 method' = Dp01Max maxItems\<rparr>)"
    unfolding solveWithItemLimit_def v nr Let_def [of "rat_of_nat ?n"] a1 a2 a3
    by (simp only: le if_False option.case prod.case)
  also have "\<dots> = Inr (limitResult problem maxItems ?n (nat \<lfloor>capacity problem\<rfloor>) (nat \<lfloor>maxItems\<rfloor>))"
    unfolding add_diff_cancel_right'
    by (simp only: Let_def limitResult_def limitTrace_def split_beta)
  finally show ?thesis .
qed

lemma solveWithItemLimit_Inr_iff:
  "solveWithItemLimit problem maxItems = Inr s \<longleftrightarrow>
     preconditions problem \<and> 0 < maxItems \<and> limitSized problem maxItems \<and>
     s = limitResult problem maxItems (min (length (items problem)) (nat \<lfloor>maxItems\<rfloor>))
           (nat \<lfloor>capacity problem\<rfloor>) (nat \<lfloor>maxItems\<rfloor>)"
proof (cases "preconditions problem")
  case False
  then obtain e where "validateProblem problem = Some e"
    using validateProblem_None [of problem] by (cases "validateProblem problem") auto
  then show ?thesis using False solveWithItemLimit_validation by auto
next
  case p: True
  show ?thesis
  proof (cases "0 < maxItems")
    case False
    then show ?thesis using solveWithItemLimit_limit [OF p, of maxItems] by auto
  next
    case pos: True
    show ?thesis
      using solveWithItemLimit_ok [OF p pos] solveWithItemLimit_RangeError [OF p pos]
      by (cases "limitSized problem maxItems") (auto simp: p pos)
  qed
qed



section \<open>solveWithItemLimit reads a prefix of the items\<close>

lemma planeSpec_cong:
  assumes "\<forall>j<i. its ! j = its' ! j"
  shows "planeSpec its cap maxK i = planeSpec its' cap maxK i"
  using assms by (induction i) simp_all

lemma fillTable3_cong:
  assumes "\<forall>j<n. its ! j = its' ! j"
  shows "fillTable3 its n cap maxK = fillTable3 its' n cap maxK"
proof (rule nth_equalityI)
  have l: "length (fillTable3 xs n cap maxK) = n + 1" for xs
    using fold_fillRow3 [of n n xs cap maxK] by (simp add: fillTable3_def)
  show "length (fillTable3 its n cap maxK) = length (fillTable3 its' n cap maxK)"
    by (simp only: l)
  fix i assume "i < length (fillTable3 its n cap maxK)"
  then have i: "i \<le> n" using l [of its] by simp
  then have "\<forall>j<i. its ! j = its' ! j" using assms by simp
  then show "fillTable3 its n cap maxK ! i = fillTable3 its' n cap maxK ! i"
    using i by (simp only: fillTable3_nth planeSpec_cong)
qed

lemma backtrack3_cong:
  assumes "\<forall>j<i. its ! j = its' ! j"
  shows "backtrack3 its dp i st = backtrack3 its' dp i st"
  using assms
proof (induction i arbitrary: st)
  case 0
  then show ?case by simp
next
  case (Suc i)
  obtain ids sel w k tw where st: "st = (ids, sel, w, k, tw)" by (cases st) auto
  have eq: "its ! i = its' ! i" using Suc.prems by simp
  have IH: "backtrack3 its dp i st' = backtrack3 its' dp i st'" for st'
    using Suc.IH [of st'] Suc.prems by simp
  show ?case unfolding st by (simp add: eq IH Let_def)
qed

lemma limitResult_cong:
  assumes "capacity p = capacity p'" "\<forall>j<n. items p ! j = items p' ! j"
  shows "limitResult p maxItems n cap maxK = limitResult p' maxItems n cap maxK"
  unfolding limitResult_def limitTrace_def
    fillTable3_cong [OF assms(2)] backtrack3_cong [OF assms(2)] assms(1) ..

lemma solveWithItemLimit_prefix:
  assumes "preconditions p" "preconditions p'" "capacity p = capacity p'"
    "take (nat \<lfloor>maxItems\<rfloor>) (items p) = take (nat \<lfloor>maxItems\<rfloor>) (items p')"
  shows "solveWithItemLimit p maxItems = solveWithItemLimit p' maxItems"
proof (cases "0 < maxItems")
  case False
  then show ?thesis
    using solveWithItemLimit_limit [OF assms(1), of maxItems]
      solveWithItemLimit_limit [OF assms(2), of maxItems] by simp
next
  case pos: True
  show ?thesis
  proof (cases "limitSized p maxItems")
    case False
    then have "\<not> limitSized p' maxItems" using assms(3) by (simp add: limitSized_def)
    then show ?thesis
      using False solveWithItemLimit_RangeError [OF assms(1) pos]
        solveWithItemLimit_RangeError [OF assms(2) pos] by simp
  next
    case True
    then have t': "limitSized p' maxItems" using assms(3) by (simp add: limitSized_def)
    let ?m = "nat \<lfloor>maxItems\<rfloor>"
    have "length (take ?m (items p)) = length (take ?m (items p'))" using assms(4) by simp
    then have n: "min (length (items p)) ?m = min (length (items p')) ?m" by simp
    have "\<forall>j<min (length (items p)) ?m. items p ! j = items p' ! j"
    proof (intro allI impI)
      fix j assume j: "j < min (length (items p)) ?m"
      then have "take ?m (items p) ! j = items p ! j" by simp
      moreover have "take ?m (items p') ! j = items p' ! j" using j by simp
      ultimately show "items p ! j = items p' ! j" using assms(4) by simp
    qed
    then have "limitResult p maxItems (min (length (items p)) ?m) (nat \<lfloor>capacity p\<rfloor>) ?m
             = limitResult p' maxItems (min (length (items p)) ?m) (nat \<lfloor>capacity p\<rfloor>) ?m"
      by (rule limitResult_cong [OF assms(3)])
    then show ?thesis
      using solveWithItemLimit_ok [OF assms(1) pos True] solveWithItemLimit_ok [OF assms(2) pos t']
      by (simp add: n assms(3))
  qed
qed



lemma scenarioE:
  assumes "10 \<le> c" "c \<le> 4294967294" "i1 \<noteq> i2"
  shows "solveWithItemLimit
           \<lparr>capacity = of_nat c, items =
              [\<lparr>id' = i1, name = n1, weight = 10, profit = 100\<rparr>,
               \<lparr>id' = i2, name = n2, weight = 5, profit = 80\<rparr>]\<rparr> 1 =
         Inr \<lparr>selectedItemIds = [i1],
              selectedItems = [\<lparr>id' = i1, name = n1, weight = 10, profit = 100\<rparr>],
              totalProfit = 100, totalWeight = 10, remainingCapacity = of_nat c - 10,
              utilizationPercentage = roundTo2 (10 / of_nat c * 100),
              method' = Dp01Max 1\<rparr>"
proof -
  let ?a = "\<lparr>id' = i1, name = n1, weight = 10, profit = 100\<rparr>"
  let ?b = "\<lparr>id' = i2, name = n2, weight = 5, profit = 80\<rparr>"
  let ?its = "[?a, ?b]"
  let ?P = "\<lparr>capacity = rat_of_nat c, items = ?its\<rparr>"
  have cpos: "0 < rat_of_nat c" using assms(1) by simp
  have p: "preconditions ?P" using assms(3) cpos by (simp add: preconditions_def)
  have "rat_of_nat c \<le> rat_of_nat 4294967294" using assms(2) by (simp only: of_nat_le_iff)
  then have ls: "limitSized ?P 1" by (simp add: limitSized_def)
  have r: "solveWithItemLimit ?P 1 = Inr (limitResult ?P 1 1 c 1)"
    using solveWithItemLimit_ok [OF p _ ls] by simp
  let ?dp = "fillTable3 ?its 1 c 1"
  have nn: "\<forall>j<1. 0 \<le> weight (?its ! j)" by simp
  have d1: "?dp ! 1 ! c ! 1 = 100"
    using planeSpec_bestK [OF nn, of c c 1 1] assms(1)
    by (simp add: fillTable3_nth trunc_def)
  have d0: "?dp ! 0 ! c ! 1 = 0"
    using planeSpec_bestK [of 0 ?its c c 1 1] by (simp add: fillTable3_nth)
  have d1': "fillTable3 ?its (Suc 0) c (Suc 0) ! Suc 0 ! c ! Suc 0 = 100" using d1 by simp
  have d0': "fillTable3 ?its (Suc 0) c (Suc 0) ! 0 ! c ! Suc 0 = 0" using d0 by simp
  have tr: "limitTrace ?P (Suc 0) c (Suc 0) = ([i1], [?a], int c - 10, 0, 10)"
    using cpos by (simp add: limitTrace_def d1' d0' detail_def)
  show ?thesis
    unfolding r by (simp add: limitResult_def tr d1' Let_def)
qed

section \<open>The backtracking loop of solve\<close>

text \<open>
  The loop selects items whose floored weights fit the capacity; when every weight is at
  least \<open>1\<close> the selected profits sum to the table's value, and when the weights are
  integers the exact weight fits the capacity.
\<close>

lemma detail_id: "detail item = item"
  by (simp add: detail_def)

lemma backtrack_selection:
  "backtrack its dp i (ids, sel, w, tw) =
     (ids @ map id' (selection its dp i w),
      sel @ selection its dp i w,
      w - sum_list (map (\<lambda>it. \<lfloor>weight it\<rfloor>) (selection its dp i w)),
      tw + sum_list (map weight (selection its dp i w)))"
proof (induction i arbitrary: ids sel w tw)
  case 0
  then show ?case by simp
next
  case (Suc i)
  show ?case
    by (simp add: Suc.IH Let_def detail_id algebra_simps)
qed

lemma selection_sound:
  assumes "\<forall>j<i. 0 \<le> weight (its ! j)" "i \<le> n" "0 \<le> w" "nat w \<le> cap"
  shows "sum_list (map (\<lambda>it. \<lfloor>weight it\<rfloor>) (selection its (fillTable its n cap) i w)) \<le> w"
  using assms
proof (induction i arbitrary: w)
  case 0
  then show ?case by simp
next
  case (Suc i)
  let ?dp = "fillTable its n cap"
  let ?wt = "\<lfloor>weight (its ! i)\<rfloor>"
  have nn: "\<forall>j<i. 0 \<le> weight (its ! j)" and nni: "0 \<le> weight (its ! i)"
    using Suc.prems(1) by simp_all
  have tf: "trunc (weight (its ! i)) = ?wt" using nni by (rule trunc_floor)
  have cur: "?dp ! Suc i ! nat w = best its (Suc i) (nat w)"
    using Suc.prems by (simp add: fillTable_nth rowSpec_best del: best.simps rowSpec.simps)
  have prev: "?dp ! i ! nat w = best its i (nat w)"
    using Suc.prems nn by (simp add: fillTable_nth rowSpec_best del: best.simps rowSpec.simps)
  show ?case
  proof (cases "0 < w \<and> ?dp ! Suc i ! nat w \<noteq> ?dp ! i ! nat w")
    case True
    then have "best its (Suc i) (nat w) \<noteq> best its i (nat w)"
      using cur prev by (simp del: best.simps)
    then have "trunc (weight (its ! i)) \<le> int (nat w)" by (simp split: if_splits)
    then have fits: "?wt \<le> int (nat w)" unfolding tf .
    have fl: "0 \<le> ?wt" using nni by simp
    have w': "0 \<le> w - ?wt" "nat (w - ?wt) \<le> cap" using fits fl Suc.prems(3,4) by linarith+
    have "sum_list (map (\<lambda>it. \<lfloor>weight it\<rfloor>) (selection its ?dp i (w - ?wt))) \<le> w - ?wt"
      using Suc.IH [OF nn _ w'] Suc.prems(2) by simp
    then show ?thesis using True by (simp add: Let_def)
  next
    case False
    have "sum_list (map (\<lambda>it. \<lfloor>weight it\<rfloor>) (selection its ?dp i w)) \<le> w"
      using Suc.IH [OF nn _ Suc.prems(3,4)] Suc.prems(2) by simp
    then show ?thesis using False Suc.prems(3) by auto
  qed
qed

lemma best_zero:
  assumes "\<forall>j<i. 1 \<le> weight (its ! j)"
  shows "best its i 0 = 0"
  using assms
proof (induction i)
  case 0
  then show ?case by simp
next
  case (Suc i)
  have "1 \<le> weight (its ! i)" using Suc.prems by simp
  then have "1 \<le> \<lfloor>weight (its ! i)\<rfloor>" by linarith
  then have "\<not> trunc (weight (its ! i)) \<le> 0" by (simp add: trunc_def)
  then show ?case using Suc by simp
qed

lemma selection_profit:
  assumes "\<forall>j<i. 1 \<le> weight (its ! j)" "i \<le> n" "0 \<le> w" "nat w \<le> cap"
  shows "profitSum (selection its (fillTable its n cap) i w) = best its i (nat w)"
  using assms
proof (induction i arbitrary: w)
  case 0
  then show ?case by (simp add: profitSum_def)
next
  case (Suc i)
  let ?dp = "fillTable its n cap"
  let ?wt = "\<lfloor>weight (its ! i)\<rfloor>"
  have ge: "\<forall>j<i. 1 \<le> weight (its ! j)" and gei: "1 \<le> weight (its ! i)"
    using Suc.prems(1) by simp_all
  have nn: "\<forall>j<Suc i. 0 \<le> weight (its ! j)"
  proof (intro allI impI)
    fix j assume "j < Suc i"
    then have "1 \<le> weight (its ! j)" using Suc.prems(1) by simp
    then show "0 \<le> weight (its ! j)" by simp
  qed
  then have nn': "\<forall>j<i. 0 \<le> weight (its ! j)" by simp
  have tf: "trunc (weight (its ! i)) = ?wt" using nn by (simp add: trunc_floor)
  have cur: "?dp ! Suc i ! nat w = best its (Suc i) (nat w)"
    using Suc.prems(2,4) nn by (simp add: fillTable_nth rowSpec_best del: best.simps rowSpec.simps)
  have prev: "?dp ! i ! nat w = best its i (nat w)"
    using Suc.prems(2,4) nn' by (simp add: fillTable_nth rowSpec_best del: best.simps rowSpec.simps)
  show ?case
  proof (cases "0 < w")
    case False
    then have "w = 0" using Suc.prems(3) by simp
    then show ?thesis using best_zero [OF Suc.prems(1)] by (simp add: profitSum_def del: best.simps)
  next
    case pos: True
    show ?thesis
    proof (cases "?dp ! Suc i ! nat w \<noteq> ?dp ! i ! nat w")
      case True
      then have ne: "best its (Suc i) (nat w) \<noteq> best its i (nat w)"
        using cur prev by (simp del: best.simps)
      then have "trunc (weight (its ! i)) \<le> int (nat w)" by (simp split: if_splits)
      then have fits: "?wt \<le> int (nat w)" unfolding tf .
      have fl: "0 \<le> ?wt" using gei by linarith
      have w': "0 \<le> w - ?wt" "nat (w - ?wt) \<le> cap" using fits fl Suc.prems(3,4) by linarith+
      have idx: "nat (int (nat w) - ?wt) = nat (w - ?wt)" using Suc.prems(3) by simp
      have "best its (Suc i) (nat w) =
            max (best its i (nat w)) (best its i (nat (int (nat w) - ?wt)) + profit (its ! i))"
        using fits by (simp add: tf)
      then have val: "best its (Suc i) (nat w) = best its i (nat (w - ?wt)) + profit (its ! i)"
        using ne unfolding idx by (simp add: max_def split: if_splits)
      have "profitSum (selection its ?dp i (w - ?wt)) = best its i (nat (w - ?wt))"
        using Suc.IH [OF ge _ w'] Suc.prems(2) by simp
      then have "profitSum (its ! i # selection its ?dp i (w - ?wt)) = best its (Suc i) (nat w)"
        unfolding val by (simp add: profitSum_def)
      then show ?thesis using True pos by (simp add: Let_def del: best.simps)
    next
      case False
      then have eq: "best its (Suc i) (nat w) = best its i (nat w)" using cur prev by simp
      have "profitSum (selection its ?dp i w) = best its i (nat w)"
        using Suc.IH [OF ge _ Suc.prems(3,4)] Suc.prems(2) by simp
      then show ?thesis using False pos unfolding eq by (simp del: best.simps)
    qed
  qed
qed

lemma selection_subset:
  "i \<le> length its \<Longrightarrow> set (selection its dp i w) \<subseteq> set its"
proof (induction i arbitrary: w)
  case 0
  then show ?case by simp
next
  case (Suc i)
  have "its ! i \<in> set its" using Suc.prems by simp
  moreover have "set (selection its dp i v) \<subseteq> set its" for v
    using Suc.IH [of v] Suc.prems by simp
  ultimately show ?case by (auto simp: Let_def)
qed

lemma solveResult_selection:
  fixes problem cap
  defines "S \<equiv> selection (items problem) (fillTable (items problem) (length (items problem)) cap)
                  (length (items problem)) (int cap)"
  shows "selectedItems (solveResult problem cap) = S"
    and "selectedItemIds (solveResult problem cap) = map id' S"
    and "totalWeight (solveResult problem cap) = sum_list (map weight S)"
    and "remainingCapacity (solveResult problem cap) = capacity problem - sum_list (map weight S)"
  unfolding S_def by (simp_all add: solveResult_def solveTrace_def backtrack_selection Let_def)

lemma sum_list_integer_weights:
  assumes "\<forall>it \<in> set S. of_int \<lfloor>weight it\<rfloor> = weight it"
  shows "sum_list (map weight S) = of_int (sum_list (map (\<lambda>it. \<lfloor>weight it\<rfloor>) S))"
  using assms by (induction S) auto

lemma solve_integer_weights:
  assumes "solve problem = Inr s"
    "\<forall>it \<in> set (items problem). of_int \<lfloor>weight it\<rfloor> = weight it"
  shows "totalWeight s \<le> capacity problem \<and> 0 \<le> remainingCapacity s \<and>
         totalProfit s = profitSum (selectedItems s)"
proof -
  let ?its = "items problem"
  let ?n = "length ?its"
  let ?cap = "nat \<lfloor>capacity problem\<rfloor>"
  let ?S = "selection ?its (fillTable ?its ?n ?cap) ?n (int ?cap)"
  have p: "preconditions problem" and g: "gridSized problem"
    and s: "s = solveResult problem ?cap"
    using assms(1) by (simp_all add: solve_Inr_iff)
  have cpos: "0 < capacity problem" using p by (simp add: preconditions_def)
  have cap: "rat_of_int (int ?cap) = capacity problem" using g cpos by (auto simp: gridSized_def)
  have ge1: "\<forall>j<?n. 1 \<le> weight (?its ! j)"
  proof (intro allI impI)
    fix j assume j: "j < ?n"
    then have m: "?its ! j \<in> set ?its" by simp
    then have "0 < weight (?its ! j)" using p by (simp add: preconditions_def)
    then have "0 < \<lfloor>weight (?its ! j)\<rfloor>" using assms(2) m by (metis of_int_0_less_iff)
    then have "(1::rat) \<le> of_int \<lfloor>weight (?its ! j)\<rfloor>" by linarith
    then show "1 \<le> weight (?its ! j)" using assms(2) m by simp
  qed
  then have nn: "\<forall>j<?n. 0 \<le> weight (?its ! j)"
    by (meson dual_order.trans zero_le_one)
  have nn': "\<forall>it \<in> set ?its. 0 \<le> weight it"
    using p by (auto simp: preconditions_def intro: less_imp_le)
  have "set ?S \<subseteq> set ?its" by (rule selection_subset) simp
  then have "\<forall>it \<in> set ?S. of_int \<lfloor>weight it\<rfloor> = weight it" using assms(2) by blast
  then have "sum_list (map weight ?S) = of_int (sum_list (map (\<lambda>it. \<lfloor>weight it\<rfloor>) ?S))"
    by (rule sum_list_integer_weights)
  moreover have "sum_list (map (\<lambda>it. \<lfloor>weight it\<rfloor>) ?S) \<le> int ?cap"
    by (rule selection_sound [OF nn]) simp_all
  ultimately have "sum_list (map weight ?S) \<le> rat_of_int (int ?cap)"
    by (simp only: of_int_le_iff)
  then have w: "sum_list (map weight ?S) \<le> capacity problem"
    unfolding cap .
  have "profitSum ?S = best ?its ?n (nat (int ?cap))"
    by (rule selection_profit [OF ge1]) simp_all
  then have pr: "profitSum ?S = totalProfit s"
    unfolding s using totalProfit_solveResult [OF nn', of ?cap] by simp
  have sel: "selectedItems s = ?S" unfolding s by (rule solveResult_selection(1))
  have tw: "totalWeight s = sum_list (map weight ?S)" unfolding s by (rule solveResult_selection(3))
  have rc: "remainingCapacity s = capacity problem - sum_list (map weight ?S)"
    unfolding s by (rule solveResult_selection(4))
  show ?thesis
    unfolding sel tw rc using w pr by simp
qed

lemma solve_grid_weight:
  assumes "solve problem = Inr s"
  shows "sum_list (map (\<lambda>it. \<lfloor>weight it\<rfloor>) (selectedItems s)) \<le> \<lfloor>capacity problem\<rfloor>"
proof -
  let ?its = "items problem"
  let ?cap = "nat \<lfloor>capacity problem\<rfloor>"
  have p: "preconditions problem" and s: "s = solveResult problem ?cap"
    using assms(1) by (simp_all add: solve_Inr_iff)
  have nn: "\<forall>j<length ?its. 0 \<le> weight (?its ! j)"
    using p by (auto simp: preconditions_def intro: less_imp_le)
  have cpos: "0 < capacity problem" using p by (simp add: preconditions_def)
  have "sum_list (map (\<lambda>it. \<lfloor>weight it\<rfloor>)
          (selection ?its (fillTable ?its (length ?its) ?cap) (length ?its) (int ?cap))) \<le> int ?cap"
    by (rule selection_sound [OF nn]) simp_all
  then show ?thesis unfolding s solveResult_selection(1) using cpos by simp
qed

section \<open>The claims\<close>

subsection \<open>C1: the profit of solve is the optimum\<close>

text \<open>
  Where \<open>solve\<close> returns a solution, its \<open>totalProfit\<close> is \<open>best[n][capacity]\<close> of the recurrence
  over truncated weights, which is the maximum, over the sublists of the items whose
  truncated weights sum to at most the capacity, of the summed profit.
\<close>

lemma solve_returned_profit_optimal:
  assumes "solve problem = Inr s"
  shows "totalProfit s = best (items problem) (length (items problem)) (nat \<lfloor>capacity problem\<rfloor>) \<and>
         totalProfit s = optimum (items problem) (nat \<lfloor>capacity problem\<rfloor>)"
proof -
  have p: "preconditions problem"
    and s: "s = solveResult problem (nat \<lfloor>capacity problem\<rfloor>)"
    using assms by (simp_all add: solve_Inr_iff)
  have nn: "\<forall>it \<in> set (items problem). 0 \<le> weight it"
    using p by (auto simp: preconditions_def intro: less_imp_le)
  show ?thesis
    unfolding s using totalProfit_solveResult [OF nn] best_optimum [OF nn] by simp
qed

text \<open>
  C1 says that \<open>solve\<close> returns, on every input that meets the preconditions, a \<open>totalProfit\<close>
  equal to \<open>best[n][floor(capacity)]\<close>. The weights are floored before they index the table;
  the capacity never is. With capacity \<open>5/2\<close> and the one item \<open>(1, 5)\<close>, \<open>validateProblem\<close>
  accepts the problem, \<open>Array(capacity + 1)\<close> is \<open>Array(7/2)\<close> and throws the RangeError, and no
  solution is returned, where the claim gives \<open>best[1][2] = 5\<close>.
\<close>

theorem solve_throws_on_fractional_capacity:
  "validateProblem
     \<lparr>capacity = 5 / 2, items = [\<lparr>id' = ''1'', name = ''A'', weight = 1, profit = 5\<rparr>]\<rparr> = None \<and>
   solve \<lparr>capacity = 5 / 2, items = [\<lparr>id' = ''1'', name = ''A'', weight = 1, profit = 5\<rparr>]\<rparr>
     = Inl RangeError \<and>
   best [\<lparr>id' = ''1'', name = ''A'', weight = 1, profit = 5\<rparr>] 1 (nat \<lfloor>5 / 2 :: rat\<rfloor>) = 5"
  by code_simp

subsection \<open>C2: the selected weight and the capacity\<close>

text \<open>
  C2 says that the exact weights of the selected items sum to at most the capacity. The
  table is indexed by floored weights, and the exact weights are summed: with capacity \<open>1\<close>
  and one item of weight \<open>3/2\<close> the item is selected, \<open>totalWeight\<close> is \<open>3/2\<close> and
  \<open>remainingCapacity\<close> is \<open>-1/2\<close>. (The floored weights of the selection never
  exceed the capacity, \<open>solve_grid_weight\<close>, and with integer weights the exact weight
  does not either, \<open>solve_integer_weights\<close>.)
\<close>

theorem solve_exceeds_capacity:
  "solve \<lparr>capacity = 1, items = [\<lparr>id' = ''1'', name = ''A'', weight = 3 / 2, profit = 10\<rparr>]\<rparr> =
     Inr \<lparr>selectedItemIds = [''1''],
          selectedItems = [\<lparr>id' = ''1'', name = ''A'', weight = 3 / 2, profit = 10\<rparr>],
          totalProfit = 10, totalWeight = 3 / 2, remainingCapacity = - (1 / 2),
          utilizationPercentage = 150, method' = Dp01\<rparr>"
  by code_simp

subsection \<open>C3: the profit and the selected items\<close>

text \<open>
  C3 says that \<open>totalProfit\<close> is the sum of the profits of the selected items. The
  backtracking loop stops as soon as \<open>w\<close> reaches \<open>0\<close>, and an item whose weight is below
  \<open>1\<close> has grid weight \<open>0\<close>: its profit is in the table at \<open>w = 0\<close>, and the loop never reaches
  it. With capacity \<open>1\<close> and the items \<open>(1/2, 5)\<close> and \<open>(1, 10)\<close> the profit is \<open>15\<close> and the
  selection is the second item alone, of profit \<open>10\<close>. (With integer weights the two
  agree, \<open>solve_integer_weights\<close>.)
\<close>

theorem solve_profit_not_sum_of_selected:
  "solve \<lparr>capacity = 1, items =
      [\<lparr>id' = ''1'', name = ''A'', weight = 1 / 2, profit = 5\<rparr>,
       \<lparr>id' = ''2'', name = ''B'', weight = 1, profit = 10\<rparr>]\<rparr> =
     Inr \<lparr>selectedItemIds = [''2''],
          selectedItems = [\<lparr>id' = ''2'', name = ''B'', weight = 1, profit = 10\<rparr>],
          totalProfit = 15, totalWeight = 1, remainingCapacity = 0,
          utilizationPercentage = 100, method' = Dp01\<rparr>"
  by code_simp


subsection \<open>C4: validation and success\<close>

text \<open>
  The validation. \<open>validateProblem\<close> throws exactly when a precondition is violated, and
  then \<open>solve\<close> and \<open>solveWithItemLimit\<close> throw that validation error, before any table is
  built; \<open>solve\<close> throws no other error than the RangeError on a problem that meets the
  preconditions, and \<open>solveWithItemLimit\<close> throws the limit error exactly on such a problem
  with \<open>maxItems \<le> 0\<close>.
\<close>

lemma validation_errors:
  "(validateProblem problem = None \<longleftrightarrow> preconditions problem) \<and>
   (\<not> preconditions problem \<longrightarrow>
      (\<exists>e. validateProblem problem = Some e \<and> e \<noteq> RangeError \<and> e \<noteq> InvalidItemLimit \<and>
           solve problem = Inl e \<and> solveWithItemLimit problem maxItems = Inl e)) \<and>
   ((\<exists>e. solve problem = Inl e \<and> e \<noteq> RangeError) \<longleftrightarrow> \<not> preconditions problem) \<and>
   (solveWithItemLimit problem maxItems = Inl InvalidItemLimit \<longleftrightarrow>
      preconditions problem \<and> maxItems \<le> 0)"
proof -
  have a: "validateProblem problem = None \<longleftrightarrow> preconditions problem"
    by (rule validateProblem_None)
  have b: "\<not> preconditions problem \<longrightarrow>
      (\<exists>e. validateProblem problem = Some e \<and> e \<noteq> RangeError \<and> e \<noteq> InvalidItemLimit \<and>
           solve problem = Inl e \<and> solveWithItemLimit problem maxItems = Inl e)"
  proof
    assume "\<not> preconditions problem"
    then obtain e where e: "validateProblem problem = Some e"
      using a by (cases "validateProblem problem") auto
    have "e \<noteq> RangeError" "e \<noteq> InvalidItemLimit"
      using e validateProblem_not_RangeError [of problem]
        validateProblem_not_InvalidItemLimit [of problem] by auto
    then show "\<exists>e. validateProblem problem = Some e \<and> e \<noteq> RangeError \<and> e \<noteq> InvalidItemLimit \<and>
           solve problem = Inl e \<and> solveWithItemLimit problem maxItems = Inl e"
      using e solve_Inl_validation [OF e] solveWithItemLimit_validation [OF e] by blast
  qed
  have h: "(\<exists>e. solve problem = Inl e \<and> e \<noteq> RangeError) \<longleftrightarrow> \<not> preconditions problem"
  proof
    assume "\<exists>e. solve problem = Inl e \<and> e \<noteq> RangeError"
    then obtain e' where e': "solve problem = Inl e'" "e' \<noteq> RangeError" by blast
    show "\<not> preconditions problem"
    proof
      assume p: "preconditions problem"
      show False
      proof (cases "gridSized problem")
        case True
        then show False using solve_ok [OF p] e'(1) by simp
      next
        case False
        then show False using solve_RangeError [OF p] e' by simp
      qed
    qed
  next
    assume "\<not> preconditions problem"
    then show "\<exists>e. solve problem = Inl e \<and> e \<noteq> RangeError" using b by blast
  qed
  have i: "solveWithItemLimit problem maxItems = Inl InvalidItemLimit \<longleftrightarrow>
      preconditions problem \<and> maxItems \<le> 0"
  proof
    assume l: "solveWithItemLimit problem maxItems = Inl InvalidItemLimit"
    have p: "preconditions problem"
    proof (rule ccontr)
      assume "\<not> preconditions problem"
      then show False using b l by auto
    qed
    have "maxItems \<le> 0"
    proof (rule ccontr)
      assume "\<not> maxItems \<le> 0"
      then have pos: "0 < maxItems" by simp
      show False
      proof (cases "limitSized problem maxItems")
        case True
        then show False using solveWithItemLimit_ok [OF p pos] l by simp
      next
        case False
        then show False using solveWithItemLimit_RangeError [OF p pos] l by simp
      qed
    qed
    then show "preconditions problem \<and> maxItems \<le> 0" using p by simp
  next
    assume "preconditions problem \<and> maxItems \<le> 0"
    then show "solveWithItemLimit problem maxItems = Inl InvalidItemLimit"
      using solveWithItemLimit_limit by blast
  qed
  show ?thesis using a b h i by (intro conjI)
qed

text \<open>
  C4 says that the solvers fail if and only if a precondition is violated (or the limit is
  not positive), with a validation error, and succeed on every input that meets the
  preconditions, any positive real capacity included. The validation is as the claim says
  (\<open>validation_errors\<close>). But with capacity \<open>1/2\<close> and the one item \<open>(1, 1)\<close>, \<open>validateProblem\<close>
  accepts the problem, and both solvers throw the RangeError of \<open>Array(capacity + 1)\<close>: a
  failure on an input that meets the preconditions, and not a validation error.
\<close>

theorem solvers_throw_on_accepted_capacity:
  "validateProblem
     \<lparr>capacity = 1 / 2, items = [\<lparr>id' = ''1'', name = ''A'', weight = 1, profit = 1\<rparr>]\<rparr> = None \<and>
   solve \<lparr>capacity = 1 / 2, items = [\<lparr>id' = ''1'', name = ''A'', weight = 1, profit = 1\<rparr>]\<rparr>
     = Inl RangeError \<and>
   solveWithItemLimit
     \<lparr>capacity = 1 / 2, items = [\<lparr>id' = ''1'', name = ''A'', weight = 1, profit = 1\<rparr>]\<rparr> 1
     = Inl RangeError"
  by code_simp

subsection \<open>C5: the bounded variant\<close>



subsection \<open>C6: only a prefix of the items is read\<close>

text \<open>
  The scenario at an integer capacity of at least \<open>10\<close>: a call that returns has selected
  the first item alone, with \<open>totalProfit = 100\<close>.
\<close>

lemma scenarioE_returned:
  assumes "10 \<le> c" "i1 \<noteq> i2"
    "solveWithItemLimit
       \<lparr>capacity = of_nat c, items =
          [\<lparr>id' = i1, name = n1, weight = 10, profit = 100\<rparr>,
           \<lparr>id' = i2, name = n2, weight = 5, profit = 80\<rparr>]\<rparr> 1 = Inr s"
  shows "s = \<lparr>selectedItemIds = [i1],
              selectedItems = [\<lparr>id' = i1, name = n1, weight = 10, profit = 100\<rparr>],
              totalProfit = 100, totalWeight = 10, remainingCapacity = of_nat c - 10,
              utilizationPercentage = roundTo2 (10 / of_nat c * 100),
              method' = Dp01Max 1\<rparr>"
proof -
  have "rat_of_nat c \<le> rat_of_nat 4294967294"
    using assms(3) by (simp add: solveWithItemLimit_Inr_iff limitSized_def)
  then have "c \<le> 4294967294" by (simp only: of_nat_le_iff)
  then show ?thesis using scenarioE [OF assms(1) _ assms(2), of n1 n2] assms(3) by simp
qed

text \<open>
  C6 says that the outcome depends on the first \<open>min(n, maxItems)\<close> items only, and that for
  a capacity of at least \<open>10\<close>, \<open>maxItems = 1\<close> and the items \<open>(10, 100)\<close> and \<open>(5, 80)\<close> the solver
  selects the first item alone, with \<open>totalProfit = 100\<close>. The first part is as the claim says
  (\<open>solveWithItemLimit_prefix\<close>), and so is the scenario where the call returns
  (\<open>scenarioE_returned\<close>). But with capacity \<open>21/2\<close>, which \<open>validateProblem\<close> accepts,
  \<open>Array(capacity + 1)\<close> throws the RangeError and nothing is selected.
\<close>

theorem solveWithItemLimit_throws_on_fractional_capacity:
  "validateProblem
     \<lparr>capacity = 21 / 2, items =
        [\<lparr>id' = ''1'', name = ''A'', weight = 10, profit = 100\<rparr>,
         \<lparr>id' = ''2'', name = ''B'', weight = 5, profit = 80\<rparr>]\<rparr> = None \<and>
   solveWithItemLimit
     \<lparr>capacity = 21 / 2, items =
        [\<lparr>id' = ''1'', name = ''A'', weight = 10, profit = 100\<rparr>,
         \<lparr>id' = ''2'', name = ''B'', weight = 5, profit = 80\<rparr>]\<rparr> 1 = Inl RangeError"
  by code_simp

subsection \<open>C7: monotonicity in a profit\<close>

text \<open>
  C7. Whenever \<open>solve\<close> returns a solution, raising the profit of one item, with the
  capacity and every other item unchanged, gives a problem on which \<open>solve\<close> returns a
  solution too, of a \<open>totalProfit\<close> that is not smaller.
\<close>

theorem solve_profit_monotone:
  assumes "solve problem = Inr s" "j < length (items problem)" "profit (items problem ! j) \<le> q"
  shows "\<exists>s'. solve (problem\<lparr>items := (items problem)[j := (items problem ! j)\<lparr>profit := q\<rparr>]\<rparr>) = Inr s'
              \<and> totalProfit s \<le> totalProfit s'"
proof -
  let ?its' = "(items problem)[j := (items problem ! j)\<lparr>profit := q\<rparr>]"
  let ?p' = "problem\<lparr>items := ?its'\<rparr>"
  let ?cap = "nat \<lfloor>capacity problem\<rfloor>"
  have p: "preconditions problem" and g: "gridSized problem"
    and s: "s = solveResult problem ?cap"
    using assms(1) by (simp_all add: solve_Inr_iff)
  have p': "preconditions ?p'" using preconditions_raise_profit [OF p assms(2,3)] .
  have g': "gridSized ?p'" using g by (simp add: gridSized_def)
  have s': "solve ?p' = Inr (solveResult ?p' ?cap)" using solve_ok [OF p' g'] by simp
  have nn: "\<forall>it \<in> set (items problem). 0 \<le> weight it"
    using p by (auto simp: preconditions_def intro: less_imp_le)
  have nn': "\<forall>it \<in> set (items ?p'). 0 \<le> weight it"
    using p' by (auto simp: preconditions_def intro: less_imp_le)
  have "\<forall>k<length (items problem). weight (?its' ! k) = weight (items problem ! k)
          \<and> profit (items problem ! k) \<le> profit (?its' ! k)"
    using assms(2,3) by (auto simp: nth_list_update)
  then have "best (items problem) (length (items problem)) ?cap
             \<le> best ?its' (length (items problem)) ?cap"
    by (rule best_mono)
  then have "totalProfit s \<le> totalProfit (solveResult ?p' ?cap)"
    using totalProfit_solveResult [OF nn, of ?cap] totalProfit_solveResult [OF nn', of ?cap] s
    by simp
  then show ?thesis using s' by blast
qed

theorem solve_profit_monotone_witness:
  "\<exists>s'. solve \<lparr>capacity = 2, items =
           [\<lparr>id' = ''1'', name = ''A'', weight = 1, profit = 7\<rparr>,
            \<lparr>id' = ''2'', name = ''B'', weight = 2, profit = 5\<rparr>]\<rparr> = Inr s' \<and> 5 \<le> totalProfit s'"
proof -
  let ?P = "\<lparr>capacity = 2, items =
           [\<lparr>id' = ''1'', name = ''A'', weight = 1, profit = 3\<rparr>,
            \<lparr>id' = ''2'', name = ''B'', weight = 2, profit = 5\<rparr>]\<rparr>"
  let ?S = "\<lparr>selectedItemIds = [''2''],
            selectedItems = [\<lparr>id' = ''2'', name = ''B'', weight = 2, profit = 5\<rparr>],
            totalProfit = 5, totalWeight = 2, remainingCapacity = 0,
            utilizationPercentage = 100, method' = Dp01\<rparr>"
  have a: "solve ?P = Inr ?S" by code_simp
  have b: "(0::nat) < length (items ?P)" by simp
  have c: "profit (items ?P ! 0) \<le> 7" by simp
  show ?thesis using solve_profit_monotone [OF a b c] by simp
qed

subsection \<open>C8: calculateEfficiency\<close>

text \<open>
  C8. When every weight is positive, \<open>calculateEfficiency\<close> returns a permutation of the
  items, each extended with \<open>efficiency = profit / weight\<close>, in non-increasing order of
  \<open>profit / weight\<close>; no item is dropped. (For a weight \<open>0\<close> the quotient of the source is
  an infinity or NaN, which the rationals do not have.)
\<close>

theorem calculateEfficiency_sorted_permutation:
  assumes "\<forall>it \<in> set (items problem). 0 < weight it"
  shows "mset (calculateEfficiency problem) = mset (map withEfficiency (items problem)) \<and>
         length (calculateEfficiency problem) = length (items problem) \<and>
         (\<forall>e \<in> set (calculateEfficiency problem). efficiency e = profit e / weight e) \<and>
         sorted_wrt (\<lambda>a b. profit b / weight b \<le> profit a / weight a) (calculateEfficiency problem)"
proof -
  have m: "mset (calculateEfficiency problem) = mset (map withEfficiency (items problem))"
    by (simp add: calculateEfficiency_def mset_sortBy)
  have l: "length (calculateEfficiency problem) = length (items problem)"
    using m by (metis length_map size_mset)
  have "set (calculateEfficiency problem) = set (map withEfficiency (items problem))"
    using m by (metis set_mset_mset)
  then have e: "\<forall>e \<in> set (calculateEfficiency problem). efficiency e = profit e / weight e"
    by (auto simp: withEfficiency_def)
  have "sorted_wrt (\<lambda>a b. efficiency b \<le> efficiency a) (calculateEfficiency problem)"
    unfolding calculateEfficiency_def by (rule sorted_sortBy)
  then have "sorted_wrt (\<lambda>a b. profit b / weight b \<le> profit a / weight a) (calculateEfficiency problem)"
    using e by (auto simp: sorted_wrt_iff_nth_less)
  then show ?thesis using m l e by simp
qed

theorem calculateEfficiency_sorted_permutation_witness:
  "calculateEfficiency \<lparr>capacity = 12, items =
       [\<lparr>id' = ''1'', name = ''A'', weight = 10, profit = 100\<rparr>,
        \<lparr>id' = ''2'', name = ''B'', weight = 5, profit = 80\<rparr>,
        \<lparr>id' = ''3'', name = ''C'', weight = 1, profit = 10\<rparr>]\<rparr> =
     [\<lparr>id' = ''2'', name = ''B'', weight = 5, profit = 80, efficiency = 16\<rparr>,
      \<lparr>id' = ''1'', name = ''A'', weight = 10, profit = 100, efficiency = 10\<rparr>,
      \<lparr>id' = ''3'', name = ''C'', weight = 1, profit = 10, efficiency = 10\<rparr>] \<and>
   sorted_wrt (\<lambda>a b. profit b / weight b \<le> profit a / weight a)
     [\<lparr>id' = ''2'', name = ''B'', weight = 5, profit = 80, efficiency = 16\<rparr>,
      \<lparr>id' = ''1'', name = ''A'', weight = 10, profit = 100, efficiency = 10\<rparr>,
      \<lparr>id' = ''3'', name = ''C'', weight = 1, profit = 10, efficiency = (10::rat)\<rparr>]"
proof -
  let ?P = "\<lparr>capacity = 12, items =
       [\<lparr>id' = ''1'', name = ''A'', weight = 10, profit = 100\<rparr>,
        \<lparr>id' = ''2'', name = ''B'', weight = 5, profit = 80\<rparr>,
        \<lparr>id' = ''3'', name = ''C'', weight = 1, profit = 10\<rparr>]\<rparr>"
  have h: "\<forall>it \<in> set (items ?P). 0 < weight it" by simp
  have v: "calculateEfficiency ?P =
     [\<lparr>id' = ''2'', name = ''B'', weight = 5, profit = 80, efficiency = 16\<rparr>,
      \<lparr>id' = ''1'', name = ''A'', weight = 10, profit = 100, efficiency = 10\<rparr>,
      \<lparr>id' = ''3'', name = ''C'', weight = 1, profit = 10, efficiency = 10\<rparr>]"
    by (simp add: calculateEfficiency_def sortBy_def withEfficiency_def)
  show ?thesis
    using calculateEfficiency_sorted_permutation [OF h] unfolding v by simp
qed

subsection \<open>C10: optimizeMultipleScenarios\<close>

text \<open>
  C10, as the code has it. \<open>optimizeMultipleScenarios\<close> is \<open>solve\<close> mapped over the list: it
  returns the list of the solutions, in order, exactly when \<open>solve\<close> returns on every
  problem, and otherwise it throws what \<open>solve\<close> throws on the first problem, in order, on
  which \<open>solve\<close> throws; when that problem violates the preconditions, this is its
  validation error.
\<close>

theorem optimizeMultipleScenarios_map_solve:
  "(optimizeMultipleScenarios problems = Inr ss \<longleftrightarrow> map solve problems = map Inr ss) \<and>
   (optimizeMultipleScenarios problems = Inl e \<longleftrightarrow>
      (\<exists>k<length problems. solve (problems ! k) = Inl e \<and>
         (\<forall>i<k. \<exists>s. solve (problems ! i) = Inr s))) \<and>
   (k < length problems \<and> \<not> preconditions (problems ! k) \<and>
    (\<forall>i<k. \<exists>s. solve (problems ! i) = Inr s) \<longrightarrow>
      (\<exists>e'. validateProblem (problems ! k) = Some e' \<and>
            optimizeMultipleScenarios problems = Inl e'))"
proof -
  have "\<exists>e'. validateProblem (problems ! k) = Some e' \<and> optimizeMultipleScenarios problems = Inl e'"
    if k: "k < length problems" and np: "\<not> preconditions (problems ! k)"
      and before: "\<forall>i<k. \<exists>s. solve (problems ! i) = Inr s"
  proof -
    obtain e' where e': "validateProblem (problems ! k) = Some e'" "solve (problems ! k) = Inl e'"
      using solve_not_preconditions [OF np] by blast
    have "optimizeMultipleScenarios problems = Inl e'"
      unfolding optimizeMultipleScenarios_Inl using k e'(2) before by blast
    then show ?thesis using e'(1) by blast
  qed
  then show ?thesis
    using optimizeMultipleScenarios_Inr [of problems ss] optimizeMultipleScenarios_Inl [of problems e]
    by blast
qed

theorem optimizeMultipleScenarios_map_solve_witness:
  "optimizeMultipleScenarios
     [\<lparr>capacity = 1, items = [\<lparr>id' = ''1'', name = ''A'', weight = 1, profit = 10\<rparr>]\<rparr>,
      \<lparr>capacity = 0, items = [\<lparr>id' = ''1'', name = ''A'', weight = 1, profit = 10\<rparr>]\<rparr>,
      \<lparr>capacity = 1, items = []\<rparr>] = Inl InvalidCapacity"
proof -
  let ?its = "[\<lparr>id' = ''1'', name = ''A'', weight = 1, profit = 10\<rparr>]"
  let ?ps = "[\<lparr>capacity = 1, items = ?its\<rparr>, \<lparr>capacity = 0, items = ?its\<rparr>,
              \<lparr>capacity = 1, items = []\<rparr>]"
  have s0: "\<exists>s. solve (?ps ! 0) = Inr s" by (simp add: solve_Inr_iff preconditions_def gridSized_def)
  have before: "\<forall>i<1. \<exists>s. solve (?ps ! i) = Inr s" using s0 by simp
  have np: "\<not> preconditions (?ps ! 1)" by (simp add: preconditions_def)
  have v: "validateProblem (?ps ! 1) = Some InvalidCapacity" by (simp add: validateProblem_def)
  have k: "(1::nat) < length ?ps" by simp
  show ?thesis
    using optimizeMultipleScenarios_map_solve [of ?ps _ _ 1] k np before v by auto
qed

text \<open>
  C10 as stated gives the validation error as soon as any problem of the list violates the
  preconditions. An earlier problem on which \<open>solve\<close> throws comes first: in the list of a
  problem of capacity \<open>5/2\<close>, which \<open>validateProblem\<close> accepts, and a problem of capacity \<open>0\<close>,
  the error is the RangeError of the first and not the validation error of the second.
\<close>

theorem optimizeMultipleScenarios_validation_counterexample:
  "validateProblem
     \<lparr>capacity = 5 / 2, items = [\<lparr>id' = ''1'', name = ''A'', weight = 1, profit = 10\<rparr>]\<rparr> = None \<and>
   validateProblem
     \<lparr>capacity = 0, items = [\<lparr>id' = ''1'', name = ''A'', weight = 1, profit = 10\<rparr>]\<rparr>
     = Some InvalidCapacity \<and>
   optimizeMultipleScenarios
     [\<lparr>capacity = 5 / 2, items = [\<lparr>id' = ''1'', name = ''A'', weight = 1, profit = 10\<rparr>]\<rparr>,
      \<lparr>capacity = 0, items = [\<lparr>id' = ''1'', name = ''A'', weight = 1, profit = 10\<rparr>]\<rparr>]
     = Inl RangeError"
  by code_simp

end
